theory Spec2Isabelle
  imports Complex_Main "HOL-Library.Multiset"
begin

section \<open>Python values and exceptions\<close>

text \<open>
  The values that travel through the search engine are JSON-like Python objects: \<open>None\<close>,
  strings, integers, lists and dictionaries with string keys. A dictionary is an
  association list in insertion order, as a Python \<open>dict\<close> is; a well-formed one has
  distinct keys.
\<close>

datatype val =
    VNone
  | VStr string
  | VInt int
  | VList "val list"
  | VDict "(string \<times> val) list"

type_synonym dict = "(string \<times> val) list"

text \<open>
  The exceptions the modelled code can meet. All are subclasses of Python's \<open>Exception\<close>
  except \<open>SystemExit\<close>, which derives from \<open>BaseException\<close> only; \<open>OSError\<close> is the
  class that \<open>except IOError\<close> catches.
\<close>

datatype exn =
    ValueError
  | TypeError
  | AttributeError
  | KeyError
  | RuntimeError
  | RecursionError
  | OSError
  | UnicodeEncodeError
  | JSONDecodeError
  | InvalidResponseError
  | CaptchaError
  | SystemExit

fun is_Exception :: "exn \<Rightarrow> bool" where
  "is_Exception SystemExit = False"
| "is_Exception _ = True"

fun is_IOError :: "exn \<Rightarrow> bool" where
  "is_IOError OSError = True"
| "is_IOError _ = False"

fun is_str :: "val \<Rightarrow> bool" where
  "is_str (VStr _) = True"
| "is_str _ = False"

fun is_list :: "val \<Rightarrow> bool" where
  "is_list (VList _) = True"
| "is_list _ = False"

fun is_dict :: "val \<Rightarrow> bool" where
  "is_dict (VDict _) = True"
| "is_dict _ = False"

fun the_list :: "val \<Rightarrow> val list" where
  "the_list (VList xs) = xs"
| "the_list _ = []"

fun the_dict :: "val \<Rightarrow> dict" where
  "the_dict (VDict d) = d"
| "the_dict _ = []"

text \<open>Python truthiness, as tested by \<open>if result:\<close> and \<open>if cache:\<close>.\<close>

fun truthy :: "val \<Rightarrow> bool" where
  "truthy VNone = False"
| "truthy (VStr s) = (s \<noteq> [])"
| "truthy (VInt i) = (i \<noteq> 0)"
| "truthy (VList xs) = (xs \<noteq> [])"
| "truthy (VDict d) = (d \<noteq> [])"

text \<open>Lists and dictionaries are unhashable: putting one into a \<open>set\<close> raises \<open>TypeError\<close>.\<close>

fun hashable :: "val \<Rightarrow> bool" where
  "hashable (VList _) = False"
| "hashable (VDict _) = False"
| "hashable _ = True"

text \<open>\<open>d[key] = value\<close>: an existing key keeps its position, a new key goes to the end.\<close>

fun setitem :: "('k \<times> 'v) list \<Rightarrow> 'k \<Rightarrow> 'v \<Rightarrow> ('k \<times> 'v) list" where
  "setitem [] key v = [(key, v)]"
| "setitem ((k, w) # d) key v = (if k = key then (k, v) # d else (k, w) # setitem d key v)"

section \<open>lib/basesearch.py\<close>

definition RISK_LEVELS :: "string list" where
  "RISK_LEVELS = [''Low'', ''Medium'', ''High'', ''Dangerous'']"

text \<open>
  \<open>BaseSearch.gen_response(risk, source, notice_id, charges)\<close>: a string \<open>charges\<close> is
  wrapped into a list first, then the risk is checked, then the dictionary is built.
\<close>

definition gen_response :: "string \<Rightarrow> string \<Rightarrow> string \<Rightarrow> val \<Rightarrow> exn + val" where
  "gen_response risk source notice_id charges =
     (let charges = (if is_str charges then VList [charges] else charges) in
      if risk \<notin> set RISK_LEVELS then Inl ValueError
      else Inr (VDict [(''risk'', VStr risk),
                       (''notices'', VDict [(source,
                          VDict [(''id'', VStr notice_id), (''charges'', charges)])])]))"

text \<open>The call without the optional argument uses the default \<open>charges = "Unknown"\<close>.\<close>

definition gen_response_default :: "string \<Rightarrow> string \<Rightarrow> string \<Rightarrow> exn + val" where
  "gen_response_default risk source notice_id = gen_response risk source notice_id (VStr ''Unknown'')"

text \<open>
  \<open>_preserve_order_dedup(items)\<close>: the loop over \<open>items\<close> with the set \<open>seen\<close> and the
  list \<open>result\<close>. The membership test hashes the item, so an unhashable item raises.
\<close>

fun dedup_loop :: "val list \<Rightarrow> val set \<Rightarrow> val list \<Rightarrow> exn + val list" where
  "dedup_loop [] seen result = Inr result"
| "dedup_loop (item # items) seen result =
     (if \<not> hashable item then Inl TypeError
      else if item \<notin> seen then dedup_loop items (insert item seen) (result @ [item])
      else dedup_loop items seen result)"

definition preserve_order_dedup :: "val list \<Rightarrow> exn + val list" where
  "preserve_order_dedup items = dedup_loop items {} []"

text \<open>
  \<open>BaseSearch.RISK_LEVELS.index(r)\<close>: the position of the first element equal to \<open>r\<close>,
  \<open>ValueError\<close> when there is none. A value that is not a string equals no risk level.
\<close>

fun list_index :: "val list \<Rightarrow> val \<Rightarrow> exn + nat" where
  "list_index [] r = Inl ValueError"
| "list_index (x # xs) r =
     (if x = r then Inr 0
      else (case list_index xs r of Inl e \<Rightarrow> Inl e | Inr i \<Rightarrow> Inr (Suc i)))"

definition risk_index :: "val \<Rightarrow> exn + nat" where
  "risk_index r = list_index (map VStr RISK_LEVELS) r"

text \<open>
  \<open>max(a, b, key=lambda r: RISK_LEVELS.index(r))\<close>: both keys are computed (either may
  raise), and the first argument wins a tie.
\<close>

definition max_risk :: "val \<Rightarrow> val \<Rightarrow> exn + val" where
  "max_risk a b =
     (case risk_index a of
        Inl e \<Rightarrow> Inl e
      | Inr i \<Rightarrow> (case risk_index b of
                    Inl e \<Rightarrow> Inl e
                  | Inr j \<Rightarrow> Inr (if i < j then b else a)))"

text \<open>
  \<open>merge_recursive(d1, d2)\<close>, on values: the loop over \<open>d2.items()\<close> updates \<open>d1\<close> and
  returns it. The function gives the dictionary \<open>d1\<close> holds at the end as a function of
  the contents of \<open>d1\<close> and \<open>d2\<close> at the call; the nested call, which updates \<open>d1[key]\<close> in
  place, leaves the key where it is with the merged dictionary as its value.
\<close>

function merge_recursive :: "dict \<Rightarrow> dict \<Rightarrow> exn + dict" where
  "merge_recursive d1 [] = Inr d1"
| "merge_recursive d1 ((key, value) # rest) =
     (case map_of d1 key of
        Some old \<Rightarrow>
          if is_dict old \<and> is_dict value then
            (case merge_recursive (the_dict old) (the_dict value) of
               Inl e \<Rightarrow> Inl e
             | Inr m \<Rightarrow> merge_recursive (setitem d1 key (VDict m)) rest)
          else if is_list old \<and> is_list value then
            (case preserve_order_dedup (the_list old @ the_list value) of
               Inl e \<Rightarrow> Inl e
             | Inr l \<Rightarrow> merge_recursive (setitem d1 key (VList l)) rest)
          else if key = ''risk'' then
            (case max_risk old value of
               Inl e \<Rightarrow> Inl e
             | Inr r \<Rightarrow> merge_recursive (setitem d1 key r) rest)
          else merge_recursive (setitem d1 key value) rest
      | None \<Rightarrow> merge_recursive (setitem d1 key value) rest)"
  by pat_completeness auto
termination
proof (relation "measure (\<lambda>(d1, d2). size_list (size_prod (\<lambda>_. 0) size) d2)")
  show "wf (measure (\<lambda>(d1, d2). size_list (size_prod (\<lambda>_. 0) size) d2))"
    by simp
next
  fix d1 :: dict and key :: string and "value" :: val and rest :: dict and old :: val
  assume "is_dict old \<and> is_dict value"
  then show "((the_dict old, the_dict value), d1, (key, value) # rest)
       \<in> measure (\<lambda>(d1, d2). size_list (size_prod (\<lambda>_. 0) size) d2)"
    by (cases "value") simp_all
qed simp_all

text \<open>
  \<open>BaseSearch.merge_responses(responses)\<close>: the left fold from the empty dictionary.
  \<open>d.items()\<close> raises \<open>AttributeError\<close> on a response that is not a dictionary.
\<close>

fun merge_loop :: "dict \<Rightarrow> val list \<Rightarrow> exn + dict" where
  "merge_loop merged_dict [] = Inr merged_dict"
| "merge_loop merged_dict (d # responses) =
     (if \<not> is_dict d then Inl AttributeError
      else (case merge_recursive merged_dict (the_dict d) of
              Inl e \<Rightarrow> Inl e
            | Inr m \<Rightarrow> merge_loop m responses))"

definition merge_responses :: "val list \<Rightarrow> exn + val" where
  "merge_responses responses = map_sum id VDict (merge_loop [] responses)"

section \<open>Partial results\<close>

text \<open>
  A PartialResult as the sources build it:
  \<open>{"risk": r, "notices": {source: {"id": i, "charges": [c, ...]}, ...}}\<close> with \<open>r\<close> one
  of the four risk levels, the keys in the order \<open>gen_response\<close> writes them, and every
  charge a string. The source keys of a dictionary are distinct.
\<close>

fun is_notice :: "val \<Rightarrow> bool" where
  "is_notice (VDict [(k1, VStr i), (k2, VList cs)]) =
     (k1 = ''id'' \<and> k2 = ''charges'' \<and> list_all is_str cs)"
| "is_notice _ = False"

fun is_partial_result :: "val \<Rightarrow> bool" where
  "is_partial_result (VDict [(k1, VStr r), (k2, VDict ns)]) =
     (k1 = ''risk'' \<and> k2 = ''notices'' \<and> r \<in> set RISK_LEVELS \<and>
      distinct (map fst ns) \<and> list_all (\<lambda>(src, n). is_notice n) ns)"
| "is_partial_result _ = False"

text \<open>\<open>v["risk"]\<close> and \<open>v["notices"][src]["charges"]\<close>.\<close>

definition risk_of :: "val \<Rightarrow> string" where
  "risk_of v = (case map_of (the_dict v) ''risk'' of Some (VStr r) \<Rightarrow> r | _ \<Rightarrow> [])"

definition charges_of :: "val \<Rightarrow> string \<Rightarrow> val list option" where
  "charges_of v src =
     (case map_of (the_dict v) ''notices'' of
        Some (VDict ns) \<Rightarrow>
          (case map_of ns src of
             Some (VDict n) \<Rightarrow>
               (case map_of n ''charges'' of Some (VList cs) \<Rightarrow> Some cs | _ \<Rightarrow> None)
           | _ \<Rightarrow> None)
      | _ \<Rightarrow> None)"

text \<open>The total order of the risk levels: Low < Medium < High < Dangerous.\<close>

definition severity :: "string \<Rightarrow> nat" where
  "severity r =
     (if r = ''Low'' then 0 else if r = ''Medium'' then 1
      else if r = ''High'' then 2 else if r = ''Dangerous'' then 3 else 4)"

text \<open>
  Deduplication as the specification words it: every element is kept at its first
  occurrence and removed everywhere after it.
\<close>

fun keep_first :: "'a list \<Rightarrow> 'a list" where
  "keep_first [] = []"
| "keep_first (x # xs) = x # keep_first (removeAll x xs)"

subsection \<open>The typed view used in the proofs\<close>

text \<open>
  A notice is a pair of its id and its charges, a partial result a risk and an association
  list of notices; \<open>enc_result\<close> writes them as the dictionaries above, the \<open>dec\<close>
  functions read them back. \<open>join_dict\<close> is the loop of \<open>merge_recursive\<close> with the
  combination of two values under one key given as a function.
\<close>

type_synonym notice = "string \<times> string list"

definition enc_notice :: "notice \<Rightarrow> val" where
  "enc_notice n = VDict [(''id'', VStr (fst n)), (''charges'', VList (map VStr (snd n)))]"

definition enc_notices :: "(string \<times> notice) list \<Rightarrow> dict" where
  "enc_notices ns = map (\<lambda>(src, n). (src, enc_notice n)) ns"

definition enc_result :: "string \<Rightarrow> (string \<times> notice) list \<Rightarrow> val" where
  "enc_result r ns = VDict [(''risk'', VStr r), (''notices'', VDict (enc_notices ns))]"

fun the_str :: "val \<Rightarrow> string" where
  "the_str (VStr s) = s"
| "the_str _ = []"

fun dec_notice :: "val \<Rightarrow> notice" where
  "dec_notice (VDict [(k1, VStr i), (k2, VList cs)]) = (i, map the_str cs)"
| "dec_notice _ = ([], [])"

definition dec_notices :: "dict \<Rightarrow> (string \<times> notice) list" where
  "dec_notices ns = map (\<lambda>(src, n). (src, dec_notice n)) ns"

definition notices_of :: "val \<Rightarrow> (string \<times> notice) list" where
  "notices_of v = (case map_of (the_dict v) ''notices'' of Some (VDict ns) \<Rightarrow> dec_notices ns | _ \<Rightarrow> [])"

definition join_risk :: "string \<Rightarrow> string \<Rightarrow> string" where
  "join_risk r1 r2 = (if severity r1 < severity r2 then r2 else r1)"

definition join_notice :: "notice \<Rightarrow> notice \<Rightarrow> notice" where
  "join_notice n1 n2 = (fst n2, keep_first (snd n1 @ snd n2))"

fun join_dict :: "('v \<Rightarrow> 'v \<Rightarrow> 'v) \<Rightarrow> ('k \<times> 'v) list \<Rightarrow> ('k \<times> 'v) list \<Rightarrow> ('k \<times> 'v) list" where
  "join_dict f d1 [] = d1"
| "join_dict f d1 ((k, v) # rest) =
     join_dict f (setitem d1 k (case map_of d1 k of None \<Rightarrow> v | Some old \<Rightarrow> f old v)) rest"

section \<open>crimescrape.py\<close>

text \<open>
  The module's globals that the search path reads. \<open>USE_CACHE\<close>, \<open>STANDALONE\<close>,
  \<open>MAX_THREADS\<close> and \<open>TIMEOUT\<close> come from the command line.
\<close>

definition CACHE_DIR :: string where
  "CACHE_DIR = ''cache''"

definition CACHE_MAX_DAYS :: int where
  "CACHE_MAX_DAYS = 5"

record config =
  USE_CACHE :: bool
  STANDALONE :: bool
  MAX_THREADS :: int
  TIMEOUT :: int

text \<open>
  What one submitted unit of work has come to when \<open>concurrent.futures.wait\<close> returns:
  it returned a value, it raised, it has not been started yet, or it is running. The last
  two land in \<open>not_done\<close>. Leaving the \<open>with ThreadPoolExecutor\<close> block waits for every
  unit that is running, and for every unit that is still queued and was not cancelled; the
  flag says whether such a unit comes to an end once it runs.
\<close>

datatype 'a fate = Returned 'a | Raised exn | Queued bool | Running bool

fun is_done :: "'a fate \<Rightarrow> bool" where
  "is_done (Returned _) = True"
| "is_done (Raised _) = True"
| "is_done _ = False"

text \<open>
  The library functions and the behaviour of the operating system and of the thread pool
  are parameters of the model:
  \<^item> \<open>escape\<close> is \<open>markupsafe.escape\<close>, \<open>upper\<close> is \<open>str.upper\<close>, \<open>md5_hexdigest\<close> is
    \<open>md5(s.encode()).hexdigest()\<close>;
  \<^item> \<open>dumps\<close> is \<open>json.dumps(_, ensure_ascii=False)\<close>, which cannot fail on a \<open>val\<close>;
    \<open>loads\<close> is \<open>json.loads\<close>, with \<open>None\<close> when it raises (it raises subclasses of
    \<open>Exception\<close> only);
  \<^item> \<open>makedirs_error\<close>, \<open>open_error\<close>, \<open>write_error\<close> and \<open>remove_error\<close> give the exception
    that \<open>os.makedirs(CACHE_DIR, exist_ok=True)\<close>, \<open>open(path, "w")\<close>, \<open>file.write(text)\<close> and
    \<open>os.remove(path)\<close> raise, if any;
  \<^item> \<open>run max_threads timeout i src method\<close> is the fate of the \<open>i\<close>-th submitted unit,
    which calls \<open>method(src)\<close>, under that pool size and timeout; \<open>done_order n\<close> is the order
    in which the set \<open>done\<close> is iterated, as a list of the indices of the \<open>n\<close> futures.
\<close>

record ('src, 'meth) env =
  escape :: "string \<Rightarrow> string"
  upper :: "string \<Rightarrow> string"
  md5_hexdigest :: "string \<Rightarrow> string"
  dumps :: "val \<Rightarrow> string"
  loads :: "string \<Rightarrow> val option"
  makedirs_error :: "exn option"
  open_error :: "string \<Rightarrow> exn option"
  write_error :: "string \<Rightarrow> string \<Rightarrow> exn option"
  remove_error :: "string \<Rightarrow> exn option"
  run :: "int \<Rightarrow> int \<Rightarrow> nat \<Rightarrow> 'src \<Rightarrow> 'meth \<Rightarrow> val fate"
  done_order :: "nat \<Rightarrow> nat list"

text \<open>
  The state the search path reads and writes: the list \<open>CURRENTLY_RUNNING\<close>, the files of
  the cache directory (path to content; a file that cannot be read counts as missing) and
  the reading of \<open>time.time()\<close>, a real number of seconds. The arithmetic on it is exact:
  the rounding of the floating-point subtraction and division in \<open>load_cache\<close> is left out,
  the \<open>OverflowError\<close> of an integer too large for a float is not.
  The lock of \<open>RunningSearches\<close> guards each single operation on the list and has no
  counterpart here, where one thread is followed.
\<close>

record world =
  CURRENTLY_RUNNING :: "string list"
  files :: "string \<rightharpoonup> string"
  clock :: real

text \<open>\<open>int(x)\<close> on a float truncates towards zero.\<close>

definition py_int :: "real \<Rightarrow> int" where
  "py_int x = (if 0 \<le> x then \<lfloor>x\<rfloor> else \<lceil>x\<rceil>)"

text \<open>
  \<open>time.time() - timestamp\<close> converts the integer \<open>timestamp\<close> to a float first. The
  conversion rounds to the nearest float and raises \<open>OverflowError\<close> when the result would
  be \<open>2 ^ 1024\<close> or more in absolute value; the largest float is \<open>2 ^ 1024 - 2 ^ 971\<close>.
\<close>

definition float_convertible :: "int \<Rightarrow> bool" where
  "float_convertible n = (\<bar>n\<bar> < 2 ^ 1024 - 2 ^ 970)"

text \<open>\<open>time.time()\<close> returns a float: its value is at most the largest float in size.\<close>

definition float_range :: "real \<Rightarrow> bool" where
  "float_range x = (\<bar>x\<bar> \<le> 2 ^ 1024 - 2 ^ 971)"

text \<open>\<open>os.path.join(a, b)\<close> for a relative \<open>b\<close> on a POSIX system.\<close>

definition path_join :: "string \<Rightarrow> string \<Rightarrow> string" where
  "path_join a b = a @ ''/'' @ b"

text \<open>\<open>obj[key]\<close> with a string key: \<open>None\<close> stands for the \<open>KeyError\<close> or \<open>TypeError\<close>.\<close>

fun getitem :: "val \<Rightarrow> string \<Rightarrow> val option" where
  "getitem (VDict d) key = map_of d key"
| "getitem _ key = None"

subsection \<open>RunningSearches\<close>

definition add_running :: "world \<Rightarrow> string \<Rightarrow> world" where
  "add_running w search_item = w\<lparr>CURRENTLY_RUNNING := CURRENTLY_RUNNING w @ [search_item]\<rparr>"

text \<open>\<open>list.remove\<close> deletes the first occurrence and raises \<open>ValueError\<close> when there is none.\<close>

definition remove_running :: "world \<Rightarrow> string \<Rightarrow> exn + world" where
  "remove_running w search_item =
     (if search_item \<in> set (CURRENTLY_RUNNING w)
      then Inr (w\<lparr>CURRENTLY_RUNNING := remove1 search_item (CURRENTLY_RUNNING w)\<rparr>)
      else Inl ValueError)"

definition is_running :: "world \<Rightarrow> string \<Rightarrow> bool" where
  "is_running w search_item = (search_item \<in> set (CURRENTLY_RUNNING w))"

subsection \<open>The cache\<close>

text \<open>
  \<open>store_cache(filename, data)\<close>. \<open>os.makedirs\<close> stands before the \<open>try\<close>, so its exception
  leaves the function. Inside the \<open>try\<close> only \<open>IOError\<close> is caught; \<open>open(path, "w")\<close> has
  emptied the file by the time \<open>file.write\<close> can fail.
\<close>

definition store_cache ::
  "('src, 'meth) env \<Rightarrow> world \<Rightarrow> string \<Rightarrow> val \<Rightarrow> (exn + bool) \<times> world" where
  "store_cache env w filename data =
     (case makedirs_error env of
        Some e \<Rightarrow> (Inl e, w)
      | None \<Rightarrow>
          (let cache_path = path_join CACHE_DIR filename;
               cache_data = VDict [(''timestamp'', VInt (py_int (clock w))), (''data'', data)]
           in case open_error env cache_path of
                Some e \<Rightarrow> if is_IOError e then (Inr False, w) else (Inl e, w)
              | None \<Rightarrow>
                  (case write_error env cache_path (dumps env cache_data) of
                     Some e \<Rightarrow>
                       if is_IOError e
                       then (Inr False, w\<lparr>files := (files w)(cache_path \<mapsto> [])\<rparr>)
                       else (Inl e, w\<lparr>files := (files w)(cache_path \<mapsto> [])\<rparr>)
                   | None \<Rightarrow>
                       (Inr True,
                        w\<lparr>files := (files w)(cache_path \<mapsto> dumps env cache_data)\<rparr>))))"

text \<open>
  \<open>load_cache(filename)\<close>. Every exception inside the \<open>try\<close> ends in \<open>return None\<close>: the
  missing file, the text that does not parse, the missing key, the timestamp that is not
  a number or is too large for a float, the failing \<open>os.remove\<close>. The result is the Python
  value returned, \<open>VNone\<close> for \<open>None\<close>. A timestamp is an integer, as \<open>store_cache\<close> writes
  it.
\<close>

definition load_cache :: "('src, 'meth) env \<Rightarrow> world \<Rightarrow> string \<Rightarrow> val \<times> world" where
  "load_cache env w filename =
     (let cache_path = path_join CACHE_DIR filename in
      case files w cache_path of
        None \<Rightarrow> (VNone, w)
      | Some text \<Rightarrow>
          (case loads env text of
             None \<Rightarrow> (VNone, w)
           | Some cache \<Rightarrow>
               (case getitem cache ''timestamp'' of
                  None \<Rightarrow> (VNone, w)
                | Some timestamp \<Rightarrow>
                    (case getitem cache ''data'' of
                       None \<Rightarrow> (VNone, w)
                     | Some data \<Rightarrow>
                         (case timestamp of
                            VInt ts \<Rightarrow>
                              if \<not> float_convertible ts then (VNone, w)
                              else
                                (let days_since = py_int ((clock w - real_of_int ts) / 86400) in
                                 if days_since > CACHE_MAX_DAYS then
                                   (case remove_error env cache_path of
                                      Some e \<Rightarrow> (VNone, w)
                                    | None \<Rightarrow> (VNone, w\<lparr>files := (files w)(cache_path := None)\<rparr>))
                                 else (data, w))
                          | _ \<Rightarrow> (VNone, w))))))"

definition gen_cache_filename :: "('src, 'meth) env \<Rightarrow> string \<Rightarrow> string" where
  "gen_cache_filename env content = md5_hexdigest env (upper env content)"

definition gen_results :: "string \<Rightarrow> val \<Rightarrow> val" where
  "gen_results status data =
     (if status \<notin> set [''fresh'', ''cached'', ''error'']
      then VDict [(''status'', VStr ''error'')]
      else VDict [(''status'', VStr status), (''data'', data)])"

subsection \<open>The orchestrator\<close>

text \<open>
  \<open>execute_search(sources, search_methods, results, max_threads, timeout)\<close>.
  \<open>ThreadPoolExecutor(max_workers=max_threads)\<close> raises \<open>ValueError\<close> for a pool size of 0
  or less, before any unit is submitted. The futures are numbered in the order of
  submission, which is the order of the dictionary comprehension: every method for the
  first source, then for the second. The loop over \<open>done\<close> appends the truthy results to
  \<open>results\<close>; \<open>except Exception\<close> catches the subclasses of \<open>Exception\<close>. The loop over
  \<open>not_done\<close> logs and cancels: a queued unit is cancelled and never runs, a running one
  goes on. Leaving the \<open>with\<close> block then joins the workers, so the function returns only
  when every running unit has ended, and not at all when one never ends. When an
  exception leaves the loop over \<open>done\<close>, nothing has been cancelled and the queued units
  run as well before the exception reaches the caller. The result is \<open>None\<close> when the call
  never returns.
\<close>

fun collect_done :: "(nat \<Rightarrow> val fate) \<Rightarrow> nat list \<Rightarrow> val list \<Rightarrow> exn + val list" where
  "collect_done fate [] results = Inr results"
| "collect_done fate (future # rest) results =
     (case fate future of
        Returned result \<Rightarrow>
          if truthy result then collect_done fate rest (results @ [result])
          else collect_done fate rest results
      | Raised e \<Rightarrow> if is_Exception e then collect_done fate rest results else Inl e
      | Queued ends \<Rightarrow> collect_done fate rest results
      | Running ends \<Rightarrow> collect_done fate rest results)"

text \<open>
  Whether the unit keeps the shutdown of the pool from ever finishing; \<open>cancelled\<close> says
  whether the loop over \<open>not_done\<close> has run.
\<close>

fun blocks_shutdown :: "bool \<Rightarrow> 'a fate \<Rightarrow> bool" where
  "blocks_shutdown cancelled (Running ends) = (\<not> ends)"
| "blocks_shutdown cancelled (Queued ends) = (\<not> cancelled \<and> \<not> ends)"
| "blocks_shutdown cancelled _ = False"

definition future_fate ::
  "('src, 'meth) env \<Rightarrow> ('src \<times> 'meth) list \<Rightarrow> int \<Rightarrow> int \<Rightarrow> nat \<Rightarrow> val fate" where
  "future_fate env future_tasks max_threads timeout i =
     (case future_tasks ! i of (src, method) \<Rightarrow> run env max_threads timeout i src method)"

definition execute_search ::
  "('src, 'meth) env \<Rightarrow> 'src list \<Rightarrow> 'meth list \<Rightarrow> val list \<Rightarrow> int \<Rightarrow> int
   \<Rightarrow> (exn + val list) option" where
  "execute_search env sources search_methods results max_threads timeout =
     (if max_threads \<le> 0 then Some (Inl ValueError)
      else
        (let future_tasks = List.product sources search_methods;
             fate = future_fate env future_tasks max_threads timeout;
             done = filter (\<lambda>i. i < length future_tasks \<and> is_done (fate i))
                      (done_order env (length future_tasks));
             not_done = filter (\<lambda>i. \<not> is_done (fate i)) [0..<length future_tasks]
         in case collect_done fate done results of
              Inr results \<Rightarrow>
                if list_ex (\<lambda>i. blocks_shutdown True (fate i)) not_done then None
                else Some (Inr results)
            | Inl e \<Rightarrow>
                if list_ex (\<lambda>i. blocks_shutdown False (fate i)) not_done then None
                else Some (Inl e)))"

text \<open>
  The loop \<open>while RunningSearches.is_running(query_id): time.sleep(0.1)\<close>, seen from the
  one thread the model follows: nothing but the clock changes while it sleeps. \<open>None\<close> is
  the loop that never ends.
\<close>

partial_function (option) wait_while_running :: "world \<Rightarrow> string \<Rightarrow> world option" where
  "wait_while_running w query_id =
     (if is_running w query_id
      then wait_while_running (w\<lparr>clock := clock w + 1 / 10\<rparr>) query_id
      else Some w)"

text \<open>\<open>jsonify\<close> wraps the dictionary into an HTTP response.\<close>

datatype response = Plain val | Jsonified val

fun body :: "response \<Rightarrow> val" where
  "body (Plain v) = v"
| "body (Jsonified v) = v"

text \<open>
  \<open>perform_search(query, cache_type, sources, search_methods, log_message)\<close>. The result
  is \<open>None\<close> when the call never returns; otherwise the response or the exception that
  leaves the function, and the state it leaves behind. \<open>cache_type + query\<close> is the
  concatenation with the escaped query; the addition escapes the cache type as well, which
  leaves the five literals that the callers pass as they are.
\<close>

definition perform_search ::
  "config \<Rightarrow> ('src, 'meth) env \<Rightarrow> world \<Rightarrow> string \<Rightarrow> string \<Rightarrow> 'src list \<Rightarrow> 'meth list
   \<Rightarrow> ((exn + response) \<times> world) option" where
  "perform_search cfg env w query cache_type sources search_methods =
     (let query = escape env query;
          results = [];
          query_id = gen_cache_filename env (cache_type @ query)
      in case wait_while_running w query_id of
           None \<Rightarrow> None
         | Some w1 \<Rightarrow>
             (let w2 = add_running w1 query_id;
                  (cache, w3) = (if USE_CACHE cfg then load_cache env w2 query_id else (VNone, w2))
              in if USE_CACHE cfg \<and> truthy cache then
                   (case remove_running w3 query_id of
                      Inl e \<Rightarrow> Some (Inl e, w3)
                    | Inr w4 \<Rightarrow> Some (Inr (Jsonified (gen_results ''cached'' cache)), w4))
                 else
                   (case execute_search env sources search_methods results
                           (MAX_THREADS cfg) (TIMEOUT cfg) of
                      None \<Rightarrow> None
                    | Some (Inl e) \<Rightarrow> Some (Inl e, w3)
                    | Some (Inr results) \<Rightarrow>
                        (case (if USE_CACHE cfg then store_cache env w3 query_id (VList results)
                               else (Inr True, w3)) of
                           (Inl e, w4) \<Rightarrow> Some (Inl e, w4)
                         | (Inr stored, w4) \<Rightarrow>
                             (case remove_running w4 query_id of
                                Inl e \<Rightarrow> Some (Inl e, w4)
                              | Inr w5 \<Rightarrow>
                                  Some (Inr (if STANDALONE cfg
                                             then Plain (gen_results ''fresh'' (VList results))
                                             else Jsonified (gen_results ''fresh'' (VList results))),
                                        w5))))))"

subsection \<open>Results of a batch\<close>

text \<open>
  What one unit contributes to the results of a batch: the value it returned when it has
  completed with a truthy value, nothing otherwise.
\<close>

definition successful_value :: "val fate \<Rightarrow> val list" where
  "successful_value f = (case f of Returned r \<Rightarrow> if truthy r then [r] else [] | _ \<Rightarrow> [])"

subsection \<open>A concrete environment\<close>

text \<open>
  The host search for \<open>example.com\<close>: \<open>search_by_host\<close> calls \<open>perform_search\<close> with the
  cache type \<open>host\<close> and no sources. The library functions are given by their values on
  the strings that occur: \<open>escape\<close> leaves a string without HTML special characters as it
  is, the MD5 digest of \<open>HOSTEXAMPLE.COM\<close> is \<open>b4820dd47592b16a7e3fd22b191aae9d\<close>, and the
  JSON texts are what \<open>json.dumps\<close> prints for the three cache entries used below.
\<close>

definition example_query_id :: string where
  "example_query_id = ''b4820dd47592b16a7e3fd22b191aae9d''"

definition example_path :: string where
  "example_path = ''cache/b4820dd47592b16a7e3fd22b191aae9d''"

definition example_data :: val where
  "example_data = VList [VDict [(''risk'', VStr ''Low''), (''notices'', VDict [])]]"

definition example_text :: string where
  \<open>example_text = ''{"timestamp": 0, "data": [{"risk": "Low", "notices": {}}]}''\<close>

definition empty_entry_text :: string where
  \<open>empty_entry_text = ''{"timestamp": 1700000000, "data": []}''\<close>

definition fresh_entry_text :: string where
  \<open>fresh_entry_text = ''{"timestamp": 1700000100, "data": []}''\<close>

definition example_found :: val where
  "example_found = VDict [(''risk'', VStr ''High''),
     (''notices'', VDict [(''fbi-most-wanted'', VDict [(''id'', VStr ''''), (''charges'', VList [VStr ''Fraud''])])])]"

definition example_env :: "(string, unit) env" where
  "example_env =
     \<lparr>escape = (\<lambda>s. s),
      upper = (\<lambda>s. if s = ''hostexample.com'' then ''HOSTEXAMPLE.COM'' else s),
      md5_hexdigest = (\<lambda>s. if s = ''HOSTEXAMPLE.COM'' then example_query_id else s),
      dumps = (\<lambda>v.
        if v = VDict [(''timestamp'', VInt 0), (''data'', example_data)] then example_text
        else if v = VDict [(''timestamp'', VInt 1700000100), (''data'', VList [])] then fresh_entry_text
        else []),
      loads = (\<lambda>t.
        if t = example_text then Some (VDict [(''timestamp'', VInt 0), (''data'', example_data)])
        else if t = empty_entry_text
          then Some (VDict [(''timestamp'', VInt 1700000000), (''data'', VList [])])
        else if t = fresh_entry_text
          then Some (VDict [(''timestamp'', VInt 1700000100), (''data'', VList [])])
        else None),
      makedirs_error = None,
      open_error = (\<lambda>path. None),
      write_error = (\<lambda>path content. None),
      remove_error = (\<lambda>path. None),
      run = (\<lambda>max_threads timeout i src method.
        if src = ''fbi'' then Returned example_found
        else if src = ''interpol'' then Raised CaptchaError
        else if src = ''europol'' then Running True
        else Returned VNone),
      done_order = (\<lambda>n. rev [0..<n])\<rparr>"

definition example_config :: config where
  "example_config = \<lparr>USE_CACHE = True, STANDALONE = False, MAX_THREADS = 5, TIMEOUT = 30\<rparr>"

definition no_files :: "string \<rightharpoonup> string" where
  "no_files = Map.empty"

definition example_files :: "string \<rightharpoonup> string" where
  "example_files = no_files(example_path \<mapsto> example_text)"

definition empty_entry_files :: "string \<rightharpoonup> string" where
  "empty_entry_files = no_files(example_path \<mapsto> empty_entry_text)"

definition fresh_entry_files :: "string \<rightharpoonup> string" where
  "fresh_entry_files = no_files(example_path \<mapsto> fresh_entry_text)"

definition world_at :: "string list \<Rightarrow> (string \<rightharpoonup> string) \<Rightarrow> real \<Rightarrow> world" where
  "world_at running fs t = \<lparr>CURRENTLY_RUNNING = running, files = fs, clock = t\<rparr>"

section \<open>merge_responses on shared objects\<close>

text \<open>
  \<open>merge_recursive\<close> updates \<open>d1\<close> in place and stores the values of \<open>d2\<close> in it without
  copying them, so a dictionary nested in an input can become part of the result. To
  say what happens to the inputs, dictionaries live in a heap and are referred to by
  address. Lists are never updated in place by the code and stay values. The heap is the
  list of all dictionaries allocated so far; the address of a dictionary is its position.
  The functions on values above give the dictionary a call returns when its arguments
  share no dictionary; the functions below are the same code with the sharing kept.
\<close>

type_synonym addr = nat

datatype hval =
    HNone
  | HStr string
  | HInt int
  | HList "hval list"
  | HRef addr

type_synonym hdict = "(string \<times> hval) list"

type_synonym heap = "hdict list"

definition hget :: "heap \<Rightarrow> addr \<Rightarrow> hdict" where
  "hget h a = (if a < length h then h ! a else [])"

text \<open>\<open>d[key] = value\<close> for the dictionary at address \<open>a\<close>.\<close>

definition hset :: "heap \<Rightarrow> addr \<Rightarrow> string \<Rightarrow> hval \<Rightarrow> heap" where
  "hset h a key v = h[a := setitem (hget h a) key v]"

fun is_ref :: "hval \<Rightarrow> bool" where
  "is_ref (HRef _) = True"
| "is_ref _ = False"

fun the_ref :: "hval \<Rightarrow> addr" where
  "the_ref (HRef a) = a"
| "the_ref _ = 0"

fun is_hlist :: "hval \<Rightarrow> bool" where
  "is_hlist (HList _) = True"
| "is_hlist _ = False"

fun the_hlist :: "hval \<Rightarrow> hval list" where
  "the_hlist (HList xs) = xs"
| "the_hlist _ = []"

fun hhashable :: "hval \<Rightarrow> bool" where
  "hhashable (HList _) = False"
| "hhashable (HRef _) = False"
| "hhashable _ = True"

fun hdedup_loop :: "hval list \<Rightarrow> hval set \<Rightarrow> hval list \<Rightarrow> exn + hval list" where
  "hdedup_loop [] seen result = Inr result"
| "hdedup_loop (item # items) seen result =
     (if \<not> hhashable item then Inl TypeError
      else if item \<notin> seen then hdedup_loop items (insert item seen) (result @ [item])
      else hdedup_loop items seen result)"

definition hpreserve_order_dedup :: "hval list \<Rightarrow> exn + hval list" where
  "hpreserve_order_dedup items = hdedup_loop items {} []"

fun hlist_index :: "hval list \<Rightarrow> hval \<Rightarrow> exn + nat" where
  "hlist_index [] r = Inl ValueError"
| "hlist_index (x # xs) r =
     (if x = r then Inr 0
      else (case hlist_index xs r of Inl e \<Rightarrow> Inl e | Inr i \<Rightarrow> Inr (Suc i)))"

definition hmax_risk :: "hval \<Rightarrow> hval \<Rightarrow> exn + hval" where
  "hmax_risk a b =
     (case hlist_index (map HStr RISK_LEVELS) a of
        Inl e \<Rightarrow> Inl e
      | Inr i \<Rightarrow> (case hlist_index (map HStr RISK_LEVELS) b of
                    Inl e \<Rightarrow> Inl e
                  | Inr j \<Rightarrow> Inr (if i < j then b else a)))"

text \<open>
  The loop \<open>for key, value in d2.items()\<close> of \<open>merge_recursive(d1, d2)\<close>, with \<open>d1\<close> at
  address \<open>a1\<close> and \<open>d2\<close> at \<open>a2\<close>. The iterator reads the dictionary as it is when the
  item is fetched: \<open>i\<close> is the position of the next item and \<open>len\<close> the size at the start
  of the loop; a dictionary that has changed its size raises \<open>RuntimeError\<close>. \<open>depth\<close> is
  the number of nested calls the interpreter still allows, and the call that exceeds it
  raises \<open>RecursionError\<close>. The result is the exception, if one was raised, and the heap
  as it is then.
\<close>

function hmerge_loop :: "nat \<Rightarrow> heap \<Rightarrow> addr \<Rightarrow> addr \<Rightarrow> nat \<Rightarrow> nat \<Rightarrow> exn option \<times> heap" where
  "hmerge_loop depth h a1 a2 i len =
     (if length (hget h a2) \<noteq> len then (Some RuntimeError, h)
      else if len \<le> i then (None, h)
      else
        (let key = fst (hget h a2 ! i); value = snd (hget h a2 ! i) in
         case map_of (hget h a1) key of
           Some old \<Rightarrow>
             if is_ref old \<and> is_ref value then
               (case depth of
                  0 \<Rightarrow> (Some RecursionError, h)
                | Suc d \<Rightarrow>
                    (case hmerge_loop d h (the_ref old) (the_ref value) 0
                            (length (hget h (the_ref value))) of
                       (Some e, h') \<Rightarrow> (Some e, h')
                     | (None, h') \<Rightarrow> hmerge_loop depth h' a1 a2 (Suc i) len))
             else if is_hlist old \<and> is_hlist value then
               (case hpreserve_order_dedup (the_hlist old @ the_hlist value) of
                  Inl e \<Rightarrow> (Some e, h)
                | Inr l \<Rightarrow> hmerge_loop depth (hset h a1 key (HList l)) a1 a2 (Suc i) len)
             else if key = ''risk'' then
               (case hmax_risk old value of
                  Inl e \<Rightarrow> (Some e, h)
                | Inr r \<Rightarrow> hmerge_loop depth (hset h a1 key r) a1 a2 (Suc i) len)
             else hmerge_loop depth (hset h a1 key value) a1 a2 (Suc i) len
         | None \<Rightarrow> hmerge_loop depth (hset h a1 key value) a1 a2 (Suc i) len))"
  by pat_completeness auto
termination
  by (relation "measures [\<lambda>(depth, h, a1, a2, i, len). depth,
                          \<lambda>(depth, h, a1, a2, i, len). len - i]") auto

declare hmerge_loop.simps [simp del]

definition hmerge_recursive :: "nat \<Rightarrow> heap \<Rightarrow> addr \<Rightarrow> addr \<Rightarrow> exn option \<times> heap" where
  "hmerge_recursive depth h a1 a2 =
     (case depth of
        0 \<Rightarrow> (Some RecursionError, h)
      | Suc d \<Rightarrow> hmerge_loop d h a1 a2 0 (length (hget h a2)))"

text \<open>
  \<open>merge_responses(responses)\<close>: \<open>merged_dict = {}\<close> allocates the result at the next free
  address, and every response is merged into it. The function returns the exception or
  nothing, the final heap, and the address of \<open>merged_dict\<close>.
\<close>

fun hmerge_all :: "nat \<Rightarrow> heap \<Rightarrow> addr \<Rightarrow> hval list \<Rightarrow> exn option \<times> heap" where
  "hmerge_all depth h merged_dict [] = (None, h)"
| "hmerge_all depth h merged_dict (d # responses) =
     (if \<not> is_ref d then (Some AttributeError, h)
      else (case hmerge_recursive depth h merged_dict (the_ref d) of
              (Some e, h') \<Rightarrow> (Some e, h')
            | (None, h') \<Rightarrow> hmerge_all depth h' merged_dict responses))"

definition hmerge_responses :: "nat \<Rightarrow> heap \<Rightarrow> hval list \<Rightarrow> exn option \<times> heap \<times> addr" where
  "hmerge_responses depth h responses =
     (case hmerge_all depth (h @ [[]]) (length h) responses of
        (e, h') \<Rightarrow> (e, h', length h))"

text \<open>
  The value a heap object stands for, read to a depth of \<open>n\<close> nested dictionaries
  (\<open>VNone\<close> below that).
\<close>

fun value_of :: "nat \<Rightarrow> heap \<Rightarrow> hval \<Rightarrow> val" where
  "value_of n h HNone = VNone"
| "value_of n h (HStr s) = VStr s"
| "value_of n h (HInt i) = VInt i"
| "value_of n h (HList xs) = VList (map (value_of n h) xs)"
| "value_of 0 h (HRef a) = VNone"
| "value_of (Suc n) h (HRef a) = VDict (map (\<lambda>kv. (fst kv, value_of n h (snd kv))) (hget h a))"

text \<open>
  The addresses a value mentions, the addresses stored in the dictionary at \<open>a\<close>, and a
  set of addresses that contains everything stored in its members.
\<close>

fun refs_of :: "hval \<Rightarrow> addr set" where
  "refs_of (HRef a) = {a}"
| "refs_of (HList xs) = (\<Union>x \<in> set xs. refs_of x)"
| "refs_of _ = {}"

definition children :: "heap \<Rightarrow> addr \<Rightarrow> addr set" where
  "children h a = (\<Union>kv \<in> set (hget h a). refs_of (snd kv))"

definition closed :: "heap \<Rightarrow> addr set \<Rightarrow> bool" where
  "closed h S = (\<forall>a \<in> S. children h a \<subseteq> S)"

text \<open>Two partial results and their notices as six dictionaries of a heap.\<close>

definition example_heap :: heap where
  "example_heap =
     [[(''risk'', HStr ''Low''), (''notices'', HRef 1)],
      [(''X'', HRef 2)],
      [(''id'', HStr ''1''), (''charges'', HList [HStr ''A'', HStr ''B''])],
      [(''risk'', HStr ''Low''), (''notices'', HRef 4)],
      [(''X'', HRef 5)],
      [(''id'', HStr ''1''), (''charges'', HList [HStr ''B'', HStr ''C''])]]"

definition example_heap_merged :: heap where
  "example_heap_merged =
     [[(''risk'', HStr ''Low''), (''notices'', HRef 1)],
      [(''X'', HRef 2)],
      [(''id'', HStr ''1''), (''charges'', HList [HStr ''A'', HStr ''B'', HStr ''C''])],
      [(''risk'', HStr ''Low''), (''notices'', HRef 4)],
      [(''X'', HRef 5)],
      [(''id'', HStr ''1''), (''charges'', HList [HStr ''B'', HStr ''C''])],
      [(''risk'', HStr ''Low''), (''notices'', HRef 1)]]"

text \<open>
  What merging into the dictionary at \<open>a1\<close> may do to a heap, relative to a set \<open>S\<close> of
  addresses: no dictionary is allocated, the dictionaries outside \<open>S\<close> other than \<open>a1\<close>
  are what they were, and \<open>S\<close> still contains everything stored in its members and in
  \<open>a1\<close>.
\<close>

definition frame :: "addr set \<Rightarrow> addr \<Rightarrow> heap \<Rightarrow> heap \<Rightarrow> bool" where
  "frame S a1 h h' =
     (length h' = length h \<and> (\<forall>a. a \<notin> insert a1 S \<longrightarrow> hget h' a = hget h a) \<and>
      closed h' S \<and> children h' a1 \<subseteq> S)"

section \<open>Properties of the merge\<close>

subsection \<open>Association lists\<close>

lemma is_str_all_map: "list_all is_str cs \<Longrightarrow> map (VStr \<circ> the_str) cs = cs"
proof (induction cs)
  case Nil then show ?case by simp
next
  case (Cons c cs)
  then show ?case by (cases c) simp_all
qed

lemma is_notice_enc: "is_notice v \<Longrightarrow> enc_notice (dec_notice v) = v"
  by (induction v rule: is_notice.induct) (simp_all add: enc_notice_def is_str_all_map)

lemma all_notices_enc:
  "list_all (\<lambda>(src, n). is_notice n) ns \<Longrightarrow> enc_notices (dec_notices ns) = ns"
  by (induction ns) (auto simp: enc_notices_def dec_notices_def is_notice_enc)

lemma fst_enc_notices: "map fst (enc_notices as) = map fst as"
  by (induction as) (auto simp: enc_notices_def)

lemma fst_dec_notices: "map fst (dec_notices ns) = map fst ns"
  by (induction ns) (auto simp: dec_notices_def)

lemma map_of_enc_notices: "map_of (enc_notices as) k = map_option enc_notice (map_of as k)"
  by (induction as) (auto simp: enc_notices_def)

lemma setitem_enc_notices: "setitem (enc_notices as) k (enc_notice n) = enc_notices (setitem as k n)"
  by (induction as) (auto simp: enc_notices_def)

lemma dedup_loop_keep_first:
  "list_all hashable items \<Longrightarrow>
   dedup_loop items seen result = Inr (result @ keep_first (filter (\<lambda>x. x \<notin> seen) items))"
proof (induction items arbitrary: seen result)
  case Nil
  then show ?case by simp
next
  case (Cons item items)
  have eq: "removeAll item (filter (\<lambda>x. x \<notin> seen) items) = filter (\<lambda>x. x \<notin> insert item seen) items"
    by (induction items) auto
  from Cons show ?case by (simp add: eq)
qed

lemma preserve_order_dedup_keep_first:
  "list_all hashable items \<Longrightarrow> preserve_order_dedup items = Inr (keep_first items)"
  by (simp add: preserve_order_dedup_def dedup_loop_keep_first)

lemma keep_first_map_inj: "inj f \<Longrightarrow> keep_first (map f xs) = map f (keep_first xs)"
proof (induction xs rule: keep_first.induct)
  case 1 then show ?case by simp
next
  case (2 x xs)
  have "removeAll (f x) (map f xs) = map f (removeAll x xs)"
    using "2.prems" by (induction xs) (auto dest: injD)
  with 2 show ?case by simp
qed

lemma dedup_strs:
  "preserve_order_dedup (map VStr c1 @ map VStr c2) = Inr (map VStr (keep_first (c1 @ c2)))"
proof -
  have "list_all hashable (map VStr (c1 @ c2))" by (auto simp: list_all_iff)
  then have "preserve_order_dedup (map VStr (c1 @ c2)) = Inr (keep_first (map VStr (c1 @ c2)))"
    by (rule preserve_order_dedup_keep_first)
  moreover have "inj VStr" by (simp add: inj_on_def)
  then have "keep_first (map VStr (c1 @ c2)) = map VStr (keep_first (c1 @ c2))"
    by (rule keep_first_map_inj)
  ultimately show ?thesis by (simp only: map_append)
qed

lemma merge_recursive_notice:
  "merge_recursive (the_dict (enc_notice n1)) (the_dict (enc_notice n2)) = Inr (the_dict (enc_notice (join_notice n1 n2)))"
  by (simp add: enc_notice_def join_notice_def dedup_strs)

lemma merge_recursive_notices:
  "merge_recursive (enc_notices a) (enc_notices b) = Inr (enc_notices (join_dict join_notice a b))"
proof (induction b arbitrary: a)
  case Nil
  then show ?case by (simp add: enc_notices_def)
next
  case (Cons x b)
  obtain k n where x: "x = (k, n)" by (cases x)
  have hd: "enc_notices ((k, n) # b) = (k, enc_notice n) # enc_notices b"
    by (simp add: enc_notices_def)
  show ?case
  proof (cases "map_of a k")
    case None
    then show ?thesis
      using Cons.IH [of "setitem a k n"]
      by (simp add: x hd map_of_enc_notices setitem_enc_notices)
  next
    case (Some old)
    have d: "is_dict (enc_notice old)" "is_dict (enc_notice n)" by (simp_all add: enc_notice_def)
    have v: "VDict (the_dict (enc_notice (join_notice old n))) = enc_notice (join_notice old n)"
      by (simp add: enc_notice_def)
    show ?thesis
      using Cons.IH [of "setitem a k (join_notice old n)"] Some d
      by (simp add: x hd map_of_enc_notices merge_recursive_notice v setitem_enc_notices)
  qed
qed

lemma setitem_keys_old: "k \<in> fst ` set d \<Longrightarrow> map fst (setitem d k v) = map fst d"
  by (induction d) force+

lemma removeAll_filter: "removeAll k (filter P xs) = filter (\<lambda>j. j \<noteq> k \<and> P j) xs"
  by (induction xs) auto

lemma setitem_keys_new: "k \<notin> fst ` set d \<Longrightarrow> map fst (setitem d k v) = map fst d @ [k]"
  by (induction d) auto

lemma setitem_keys:
  "map fst (setitem d k v) = (if k \<in> set (map fst d) then map fst d else map fst d @ [k])"
  by (simp add: setitem_keys_old setitem_keys_new)

lemma setitem_map_of: "map_of (setitem d k v) = (map_of d)(k \<mapsto> v)"
  by (induction d) auto

lemma keep_first_filter: "keep_first (filter P xs) = filter P (keep_first xs)"
proof (induction xs rule: keep_first.induct)
  case 1 then show ?case by simp
next
  case (2 x xs)
  have a: "removeAll x (filter P xs) = filter P (removeAll x xs)"
    by (induction xs) auto
  have b: "\<not> P x \<Longrightarrow> filter P (removeAll x xs) = filter P xs"
    by (induction xs) auto
  show ?case
  proof (cases "P x")
    case True
    with 2 a show ?thesis by simp
  next
    case False
    with 2 b show ?thesis by simp
  qed
qed

lemma keep_first_distinct: "distinct xs \<Longrightarrow> keep_first xs = xs"
  by (induction xs) simp_all

lemma join_dict_keys:
  "map fst (join_dict f a b) =
   map fst a @ keep_first (filter (\<lambda>k. k \<notin> set (map fst a)) (map fst b))"
proof (induction b arbitrary: a)
  case Nil
  then show ?case by simp
next
  case (Cons x b)
  obtain k v where x: "x = (k, v)" by (cases x)
  let ?a' = "setitem a k (case map_of a k of None \<Rightarrow> v | Some old \<Rightarrow> f old v)"
  note rm = removeAll_filter
  show ?case
  proof (cases "k \<in> set (map fst a)")
    case True
    then show ?thesis using Cons.IH [of ?a'] by (simp add: x setitem_keys)
  next
    case False
    then show ?thesis using Cons.IH [of ?a']
      by (simp add: x setitem_keys rm del: removeAll_filter_not_eq cong: conj_cong)
  qed
qed

lemma set_keep_first: "set (keep_first xs) = set xs"
  by (induction xs rule: keep_first.induct) auto

lemma distinct_keep_first: "distinct (keep_first xs)"
  by (induction xs rule: keep_first.induct) (auto simp: set_keep_first)

lemma join_dict_distinct:
  "distinct (map fst a) \<Longrightarrow> distinct (map fst (join_dict f a b))"
  by (auto simp: join_dict_keys distinct_keep_first set_keep_first)

lemma join_dict_map_of:
  "distinct (map fst b) \<Longrightarrow>
   map_of (join_dict f a b) k =
     (case map_of b k of
        None \<Rightarrow> map_of a k
      | Some v \<Rightarrow> Some (case map_of a k of None \<Rightarrow> v | Some old \<Rightarrow> f old v))"
proof (induction b arbitrary: a)
  case Nil
  then show ?case by simp
next
  case (Cons x b)
  obtain k' v where x: "x = (k', v)" by (cases x)
  from Cons.prems x have nk: "map_of b k' = None" and db: "distinct (map fst b)"
    by (auto simp: map_of_eq_None_iff)
  show ?case
  proof (cases "k = k'")
    case True
    with Cons.IH [OF db] nk show ?thesis by (simp add: x setitem_map_of)
  next
    case False
    with Cons.IH [OF db] show ?thesis by (simp add: x setitem_map_of split: option.splits)
  qed
qed

lemma dict_eqI:
  "map fst xs = map fst ys \<Longrightarrow> distinct (map fst xs) \<Longrightarrow> map_of xs = map_of ys \<Longrightarrow> xs = ys"
proof (induction xs arbitrary: ys)
  case Nil
  then show ?case by simp
next
  case (Cons x xs)
  then obtain y ys' where ys: "ys = y # ys'" by (cases ys) auto
  with Cons.prems have k: "fst x = fst y" and ks: "map fst xs = map fst ys'" by auto
  from Cons.prems(3) have eq: "map_of (x # xs) j = map_of (y # ys') j" for j
    unfolding ys by (rule fun_cong)
  from eq [of "fst x"] k have v: "snd x = snd y" by (cases x; cases y) simp
  have "map_of xs = map_of ys'"
  proof
    fix j
    show "map_of xs j = map_of ys' j"
    proof (cases "j = fst x")
      case True
      with Cons.prems(2) ks show ?thesis
        by (metis distinct.simps(2) list.simps(9) map_of_eq_None_iff set_map)
    next
      case False
      with eq [of j] k show ?thesis by (cases x; cases y) simp
    qed
  qed
  with Cons.IH [OF ks] Cons.prems(2) have "xs = ys'" by simp
  with k v ys show ?case by (cases x; cases y) simp
qed

lemma join_dict_assoc:
  assumes f: "\<And>x y z. f (f x y) z = f x (f y z)"
    and da: "distinct (map fst a)" and db: "distinct (map fst b)" and dc: "distinct (map fst c)"
  shows "join_dict f (join_dict f a b) c = join_dict f a (join_dict f b c)"
proof (rule dict_eqI)
  have dbc: "distinct (map fst (join_dict f b c))" using db by (rule join_dict_distinct)
  let ?kb = "filter (\<lambda>k. k \<notin> fst ` set a) (map fst b)"
  let ?kc = "filter (\<lambda>k. k \<notin> fst ` set a \<and> k \<notin> fst ` set b) (map fst c)"
  have kc: "filter (\<lambda>k. k \<notin> fst ` set b \<and> k \<notin> fst ` set a) (map fst c) = ?kc"
    by (rule filter_cong) auto
  have "distinct (?kb @ ?kc)" using db dc by auto
  then have "keep_first (?kb @ ?kc) = ?kb @ ?kc" by (rule keep_first_distinct)
  then show "map fst (join_dict f (join_dict f a b) c) = map fst (join_dict f a (join_dict f b c))"
    using db dc
    by (simp add: join_dict_keys keep_first_filter keep_first_distinct kc cong: conj_cong)
  show "distinct (map fst (join_dict f (join_dict f a b) c))"
    using da by (intro join_dict_distinct)
  show "map_of (join_dict f (join_dict f a b) c) = map_of (join_dict f a (join_dict f b c))"
  proof
    fix k
    show "map_of (join_dict f (join_dict f a b) c) k = map_of (join_dict f a (join_dict f b c)) k"
      using db dc dbc by (simp add: join_dict_map_of f split: option.splits)
  qed
qed

lemma keep_first_idem: "keep_first (keep_first xs) = keep_first xs"
  by (simp add: keep_first_distinct distinct_keep_first)

lemma removeAll_keep_first: "removeAll x (keep_first xs) = keep_first (removeAll x xs)"
  by (simp add: removeAll_filter_not_eq keep_first_filter)

lemma keep_first_append_left: "keep_first (keep_first xs @ ys) = keep_first (xs @ ys)"
proof (induction xs arbitrary: ys rule: keep_first.induct)
  case 1
  then show ?case by simp
next
  case (2 x xs)
  from "2.IH" [of "removeAll x ys"] show ?case
    by (simp add: removeAll_keep_first)
qed

lemma keep_first_append_right: "keep_first (xs @ keep_first ys) = keep_first (xs @ ys)"
proof (induction xs arbitrary: ys rule: keep_first.induct)
  case 1
  then show ?case by (simp add: keep_first_idem)
next
  case (2 x xs)
  from "2.IH" [of "removeAll x ys"] show ?case
    by (simp add: removeAll_keep_first)
qed

lemma join_notice_assoc: "join_notice (join_notice x y) z = join_notice x (join_notice y z)"
  by (simp add: join_notice_def keep_first_append_left keep_first_append_right)

lemma risk_index_severity:
  "r \<in> set RISK_LEVELS \<Longrightarrow> risk_index (VStr r) = Inr (severity r)"
  by (auto simp: RISK_LEVELS_def risk_index_def severity_def)

lemma max_risk_join:
  "r1 \<in> set RISK_LEVELS \<Longrightarrow> r2 \<in> set RISK_LEVELS \<Longrightarrow>
   max_risk (VStr r1) (VStr r2) = Inr (VStr (join_risk r1 r2))"
  by (simp add: max_risk_def risk_index_severity join_risk_def)

lemma join_risk_valid:
  "r1 \<in> set RISK_LEVELS \<Longrightarrow> r2 \<in> set RISK_LEVELS \<Longrightarrow> join_risk r1 r2 \<in> set RISK_LEVELS"
  by (simp add: join_risk_def)

lemma join_risk_assoc:
  "r1 \<in> set RISK_LEVELS \<Longrightarrow> r2 \<in> set RISK_LEVELS \<Longrightarrow> r3 \<in> set RISK_LEVELS \<Longrightarrow>
   join_risk (join_risk r1 r2) r3 = join_risk r1 (join_risk r2 r3)"
  by (auto simp: join_risk_def)

lemma merge_recursive_empty_result:
  "merge_recursive [] (the_dict (enc_result r a)) = Inr (the_dict (enc_result r a))"
  by (simp add: enc_result_def)

lemma merge_recursive_results:
  assumes "r1 \<in> set RISK_LEVELS" and "r2 \<in> set RISK_LEVELS"
  shows "merge_recursive (the_dict (enc_result r1 a)) (the_dict (enc_result r2 b)) =
         Inr (the_dict (enc_result (join_risk r1 r2) (join_dict join_notice a b)))"
  using assms by (simp add: enc_result_def max_risk_join merge_recursive_notices)

lemma is_partial_result_dec:
  assumes "is_partial_result v"
  shows "v = enc_result (risk_of v) (notices_of v)"
    and "risk_of v \<in> set RISK_LEVELS"
    and "distinct (map fst (notices_of v))"
    and "is_dict v"
  using assms
  by (induction v rule: is_partial_result.induct)
    (simp_all add: enc_result_def risk_of_def notices_of_def all_notices_enc fst_dec_notices)

lemma is_notice_enc_notice: "is_notice (enc_notice n)"
  by (simp add: enc_notice_def list_all_iff)

lemma is_partial_result_enc_result:
  "r \<in> set RISK_LEVELS \<Longrightarrow> distinct (map fst a) \<Longrightarrow> is_partial_result (enc_result r a)"
proof -
  assume r: "r \<in> set RISK_LEVELS" and d: "distinct (map fst a)"
  have "list_all (\<lambda>(src, n). is_notice n) (enc_notices a)"
    by (auto simp: list_all_iff enc_notices_def is_notice_enc_notice)
  with r d show ?thesis by (simp add: enc_result_def fst_enc_notices)
qed

lemma risk_of_enc_result: "risk_of (enc_result r a) = r"
  by (simp add: risk_of_def enc_result_def)

lemma merge_loop_results:
  "list_all is_partial_result rs \<Longrightarrow> r \<in> set RISK_LEVELS \<Longrightarrow>
   merge_loop (the_dict (enc_result r a)) rs =
     Inr (the_dict (enc_result (foldl join_risk r (map risk_of rs))
                               (foldl (join_dict join_notice) a (map notices_of rs))))"
proof (induction rs arbitrary: r a)
  case Nil
  then show ?case by simp
next
  case (Cons v rs)
  from Cons.prems have v: "is_partial_result v" and rs: "list_all is_partial_result rs" by simp_all
  note d = is_partial_result_dec [OF v]
  note dv = d(4)
  have step: "merge_recursive (the_dict (enc_result r a)) (the_dict v) =
      Inr (the_dict (enc_result (join_risk r (risk_of v)) (join_dict join_notice a (notices_of v))))"
    using merge_recursive_results [OF Cons.prems(2) d(2), of a "notices_of v"] d(1) by simp
  have "join_risk r (risk_of v) \<in> set RISK_LEVELS"
    using Cons.prems(2) d(2) by (rule join_risk_valid)
  from Cons.IH [OF rs this] dv step show ?case by simp
qed

lemma merge_responses_results:
  assumes v: "is_partial_result v" and rs: "list_all is_partial_result rs"
  shows "merge_responses (v # rs) =
     Inr (enc_result (foldl join_risk (risk_of v) (map risk_of rs))
                     (foldl (join_dict join_notice) (notices_of v) (map notices_of rs)))"
proof -
  note d = is_partial_result_dec [OF v]
  note dv = d(4)
  have "merge_recursive [] (the_dict v) = Inr (the_dict v)"
    using merge_recursive_empty_result [of "risk_of v" "notices_of v"] d(1) by simp
  then have "merge_loop [] (v # rs) = merge_loop (the_dict (enc_result (risk_of v) (notices_of v))) rs"
    using dv d(1) by simp
  then show ?thesis
    using merge_loop_results [OF rs d(2), of "notices_of v"]
    by (simp add: merge_responses_def enc_result_def)
qed

lemma foldl_join_risk_max:
  "r \<in> set RISK_LEVELS \<Longrightarrow> set xs \<subseteq> set RISK_LEVELS \<Longrightarrow>
   foldl join_risk r xs \<in> set (r # xs) \<and>
   (\<forall>x \<in> set (r # xs). severity x \<le> severity (foldl join_risk r xs))"
proof (induction xs arbitrary: r)
  case Nil
  then show ?case by simp
next
  case (Cons x xs)
  then have jr: "join_risk r x \<in> set RISK_LEVELS" by (simp add: join_risk_valid)
  from Cons.prems have "set xs \<subseteq> set RISK_LEVELS" by simp
  from Cons.IH [OF jr this]
  have m: "foldl join_risk (join_risk r x) xs \<in> set (join_risk r x # xs)"
    and u: "\<forall>y \<in> set (join_risk r x # xs). severity y \<le> severity (foldl join_risk (join_risk r x) xs)"
    by simp_all
  have "join_risk r x = r \<or> join_risk r x = x" by (simp add: join_risk_def)
  with m have 1: "foldl join_risk r (x # xs) \<in> set (r # x # xs)" by auto
  have "severity r \<le> severity (join_risk r x)" "severity x \<le> severity (join_risk r x)"
    by (simp_all add: join_risk_def)
  with u have 2: "\<forall>y \<in> set (r # x # xs). severity y \<le> severity (foldl join_risk r (x # xs))"
    by (auto intro: order_trans)
  from 1 2 show ?case by simp
qed

lemma merge_responses_pair:
  assumes A: "is_partial_result A" and B: "is_partial_result B"
  shows "merge_responses [A, B] =
     Inr (enc_result (join_risk (risk_of A) (risk_of B))
                     (join_dict join_notice (notices_of A) (notices_of B)))"
  using merge_responses_results [OF A, of "[B]"] B by simp

lemma notices_of_enc_result: "notices_of (enc_result r a) = a"
proof -
  have "dec_notices (enc_notices a) = a"
    by (induction a) (auto simp: dec_notices_def enc_notices_def enc_notice_def comp_def)
  then show ?thesis by (simp add: notices_of_def enc_result_def)
qed

lemma charges_of_enc_result:
  "charges_of (enc_result r a) src = map_option (\<lambda>n. map VStr (snd n)) (map_of a src)"
  by (cases "map_of a src")
    (simp_all add: charges_of_def enc_result_def map_of_enc_notices enc_notice_def)

section \<open>Properties of the cache and the orchestrator\<close>

lemma py_int_days_gt_iff:
  "py_int (x / 86400) > CACHE_MAX_DAYS \<longleftrightarrow> x \<ge> 6 * 86400"
proof (cases "0 \<le> x")
  case True
  then have "py_int (x / 86400) = \<lfloor>x / 86400\<rfloor>" by (simp add: py_int_def)
  moreover have "5 < \<lfloor>x / 86400\<rfloor> \<longleftrightarrow> 6 \<le> x / 86400"
    using le_floor_iff [of 6 "x / 86400"] by simp
  ultimately show ?thesis by (simp add: CACHE_MAX_DAYS_def)
next
  case False
  then have "py_int (x / 86400) = \<lceil>x / 86400\<rceil>" by (simp add: py_int_def)
  moreover from False have "\<lceil>x / 86400\<rceil> \<le> 0" by (simp add: ceiling_le_iff)
  ultimately show ?thesis using False by (simp add: CACHE_MAX_DAYS_def)
qed

lemma load_cache_entry:
  assumes "files w (path_join CACHE_DIR filename) = Some text"
    and "loads env text = Some (VDict [(''timestamp'', VInt ts), (''data'', data)])"
  shows "load_cache env w filename =
     (if \<not> float_convertible ts then (VNone, w)
      else if clock w - real_of_int ts \<ge> 6 * 86400 then
        (case remove_error env (path_join CACHE_DIR filename) of
           Some e \<Rightarrow> (VNone, w)
         | None \<Rightarrow> (VNone, w\<lparr>files := (files w)(path_join CACHE_DIR filename := None)\<rparr>))
      else (data, w))"
  using assms by (simp add: load_cache_def py_int_days_gt_iff Let_def)

lemma load_cache_timestamp_overflow:
  assumes "files w (path_join CACHE_DIR filename) = Some text"
    and "loads env text = Some (VDict [(''timestamp'', VInt ts), (''data'', data)])"
    and "\<not> float_convertible ts"
  shows "load_cache env w filename = (VNone, w)"
  using assms by (simp add: load_cache_entry)

lemma load_cache_stale_remove_fails:
  assumes "files w (path_join CACHE_DIR filename) = Some text"
    and "loads env text = Some (VDict [(''timestamp'', VInt ts), (''data'', data)])"
    and "clock w - real_of_int ts \<ge> 6 * 86400"
    and "remove_error env (path_join CACHE_DIR filename) = Some e"
  shows "load_cache env w filename = (VNone, w)"
  using assms by (simp add: load_cache_entry)

lemma abs_py_int_le: "\<bar>real_of_int (py_int x)\<bar> \<le> \<bar>x\<bar>"
proof (cases "0 \<le> x")
  case True
  then have "0 \<le> \<lfloor>x\<rfloor>" by simp
  with True show ?thesis by (simp add: py_int_def)
next
  case False
  then have "\<lceil>x\<rceil> \<le> 0" by (simp add: ceiling_le_iff)
  moreover have "x \<le> real_of_int \<lceil>x\<rceil>" by (rule le_of_int_ceiling)
  ultimately show ?thesis using False by (simp add: py_int_def)
qed

lemma float_range_py_int: "float_range x \<Longrightarrow> float_convertible (py_int x)"
proof -
  assume r: "float_range x"
  define M :: int where "M = 2 ^ 1024 - 2 ^ 971"
  have M: "real_of_int M = 2 ^ 1024 - 2 ^ 971" by (simp add: M_def)
  from r abs_py_int_le [of x] have "\<bar>real_of_int (py_int x)\<bar> \<le> real_of_int M"
    unfolding float_range_def M by (rule order_trans [rotated])
  then have "real_of_int \<bar>py_int x\<bar> \<le> real_of_int M" by simp
  then have "\<bar>py_int x\<bar> \<le> M" by (simp only: of_int_le_iff)
  moreover have "M < 2 ^ 1024 - 2 ^ 970" unfolding M_def by simp
  ultimately show ?thesis unfolding float_convertible_def by (rule le_less_trans)
qed

lemma load_cache_running: "CURRENTLY_RUNNING (snd (load_cache env w f)) = CURRENTLY_RUNNING w"
  by (simp add: load_cache_def Let_def split: option.splits val.splits)

lemma store_cache_running: "CURRENTLY_RUNNING (snd (store_cache env w f d)) = CURRENTLY_RUNNING w"
  by (simp add: store_cache_def Let_def split: option.splits)

lemma store_cache_no_raise:
  assumes "makedirs_error env = None"
    and "\<forall>e. open_error env (path_join CACHE_DIR f) = Some e \<longrightarrow> is_IOError e"
    and "\<forall>t e. write_error env (path_join CACHE_DIR f) t = Some e \<longrightarrow> is_IOError e"
  shows "\<exists>b. fst (store_cache env w f d) = Inr b"
  using assms by (auto simp: store_cache_def Let_def split: option.splits)

lemma wait_not_running: "\<not> is_running w q \<Longrightarrow> wait_while_running w q = Some w"
  by (subst wait_while_running.simps) simp

lemma remove_after_add:
  "CURRENTLY_RUNNING w' = CURRENTLY_RUNNING (add_running w q) \<Longrightarrow>
   remove_running w' q = Inr (w'\<lparr>CURRENTLY_RUNNING := remove1 q (CURRENTLY_RUNNING w @ [q])\<rparr>)"
  by (simp add: remove_running_def add_running_def)

lemma load_cache_empty_falsy:
  assumes "files w (path_join CACHE_DIR f) = Some text"
    and "loads env text = Some (VDict [(''timestamp'', VInt ts), (''data'', VList [])])"
  shows "\<not> truthy (fst (load_cache env w f))"
  using assms by (simp add: load_cache_def Let_def split: option.splits)

lemma perform_search_miss:
  fixes env :: "('src, 'meth) env"
  assumes nr: "\<not> is_running w (gen_cache_filename env (cache_type @ escape env query))"
    and miss: "USE_CACHE cfg \<Longrightarrow>
       \<not> truthy (fst (load_cache env (add_running w (gen_cache_filename env (cache_type @ escape env query)))
                       (gen_cache_filename env (cache_type @ escape env query))))"
    and ex: "execute_search env sources search_methods [] (MAX_THREADS cfg) (TIMEOUT cfg) = Some (Inr rs)"
    and st: "\<And>w0. \<exists>b. fst (store_cache env w0 (gen_cache_filename env (cache_type @ escape env query)) (VList rs)) = Inr b"
  shows "\<exists>resp w'. perform_search cfg env w query cache_type sources search_methods = Some (Inr resp, w') \<and>
           body resp = gen_results ''fresh'' (VList rs)"
proof -
  let ?q = "gen_cache_filename env (cache_type @ escape env query)"
  let ?w2 = "add_running w ?q"
  show ?thesis
  proof (cases "USE_CACHE cfg")
    case False
    have rm: "remove_running ?w2 ?q = Inr (?w2\<lparr>CURRENTLY_RUNNING := remove1 ?q (CURRENTLY_RUNNING w @ [?q])\<rparr>)"
      by (rule remove_after_add) simp
    from False show ?thesis
      by (simp add: perform_search_def Let_def wait_not_running [OF nr] ex rm)
  next
    case True
    obtain cache w3 where lc: "load_cache env ?w2 ?q = (cache, w3)" by (cases "load_cache env ?w2 ?q")
    with miss [OF True] have f: "\<not> truthy cache" by simp
    from lc have r3: "CURRENTLY_RUNNING w3 = CURRENTLY_RUNNING ?w2"
      using load_cache_running [of env ?w2 ?q] by simp
    obtain out w4 where sc: "store_cache env w3 ?q (VList rs) = (out, w4)"
      by (cases "store_cache env w3 ?q (VList rs)")
    with st [of w3] obtain b where out: "out = Inr b" by auto
    from sc have "CURRENTLY_RUNNING w4 = CURRENTLY_RUNNING w3"
      using store_cache_running [of env w3 ?q "VList rs"] by simp
    with r3 have "CURRENTLY_RUNNING w4 = CURRENTLY_RUNNING ?w2" by simp
    then have rm: "remove_running w4 ?q = Inr (w4\<lparr>CURRENTLY_RUNNING := remove1 ?q (CURRENTLY_RUNNING w @ [?q])\<rparr>)"
      by (rule remove_after_add)
    from True f show ?thesis
      by (simp add: perform_search_def Let_def wait_not_running [OF nr] lc ex sc out rm)
  qed
qed

lemma perform_search_cached_truthy:
  fixes env :: "('src, 'meth) env"
  assumes "perform_search cfg env w query cache_type sources search_methods = Some (Inr resp, w')"
    and "getitem (body resp) ''status'' = Some (VStr ''cached'')"
  shows "\<exists>cache. getitem (body resp) ''data'' = Some cache \<and> truthy cache \<and> cache \<noteq> VList []"
proof -
  let ?q = "gen_cache_filename env (cache_type @ escape env query)"
  from assms(1) obtain w1 where w1: "wait_while_running w ?q = Some w1"
    by (cases "wait_while_running w ?q") (simp_all add: perform_search_def Let_def)
  obtain cache w3 where lc: "(if USE_CACHE cfg then load_cache env (add_running w1 ?q) ?q else (VNone, add_running w1 ?q)) = (cache, w3)"
    by (cases "if USE_CACHE cfg then load_cache env (add_running w1 ?q) ?q else (VNone, add_running w1 ?q)")
  show ?thesis
  proof (cases "USE_CACHE cfg \<and> truthy cache")
    case True
    with assms(1) w1 lc have "body resp = gen_results ''cached'' cache"
      by (auto simp: perform_search_def Let_def split: sum.splits)
    with True show ?thesis by (auto simp: gen_results_def)
  next
    case False
    with assms(1) w1 lc have "body resp = gen_results ''fresh'' (VList (projr (the (execute_search env sources search_methods [] (MAX_THREADS cfg) (TIMEOUT cfg)))))"
      by (auto simp: perform_search_def Let_def split: option.splits sum.splits prod.splits if_splits)
    with assms(2) show ?thesis by (simp add: gen_results_def)
  qed
qed

lemma perform_search_not_running:
  fixes env :: "('src, 'meth) env"
  assumes q: "gen_cache_filename env (cache_type @ escape env query) = q"
    and nr: "\<not> is_running w q"
  shows "perform_search cfg env w query cache_type sources search_methods =
     (let w2 = add_running w q;
          (cache, w3) = (if USE_CACHE cfg then load_cache env w2 q else (VNone, w2))
      in if USE_CACHE cfg \<and> truthy cache then
           (case remove_running w3 q of
              Inl e \<Rightarrow> Some (Inl e, w3)
            | Inr w4 \<Rightarrow> Some (Inr (Jsonified (gen_results ''cached'' cache)), w4))
         else
           (case execute_search env sources search_methods [] (MAX_THREADS cfg) (TIMEOUT cfg) of
              None \<Rightarrow> None
            | Some (Inl e) \<Rightarrow> Some (Inl e, w3)
            | Some (Inr results) \<Rightarrow>
                (case (if USE_CACHE cfg then store_cache env w3 q (VList results)
                       else (Inr True, w3)) of
                   (Inl e, w4) \<Rightarrow> Some (Inl e, w4)
                 | (Inr stored, w4) \<Rightarrow>
                     (case remove_running w4 q of
                        Inl e \<Rightarrow> Some (Inl e, w4)
                      | Inr w5 \<Rightarrow>
                          Some (Inr (if STANDALONE cfg
                                     then Plain (gen_results ''fresh'' (VList results))
                                     else Jsonified (gen_results ''fresh'' (VList results))),
                                w5)))))"
  by (simp only: perform_search_def Let_def q wait_not_running [OF nr] option.case)

lemma perform_search_return_releases:
  fixes env :: "('src, 'meth) env"
  assumes nr: "\<not> is_running w (gen_cache_filename env (cache_type @ escape env query))"
    and ret: "perform_search cfg env w query cache_type sources search_methods = Some (Inr resp, w')"
  shows "\<not> is_running w' (gen_cache_filename env (cache_type @ escape env query))"
proof -
  let ?q = "gen_cache_filename env (cache_type @ escape env query)"
  have rm: "remove_running v ?q = Inr v' \<Longrightarrow> CURRENTLY_RUNNING v = CURRENTLY_RUNNING w @ [?q]
      \<Longrightarrow> \<not> is_running v' ?q" for v v'
    using nr by (auto simp: remove_running_def is_running_def remove1_append split: if_splits)
  obtain cache w3 where lc: "load_cache env (add_running w ?q) ?q = (cache, w3)"
    by (cases "load_cache env (add_running w ?q) ?q")
  then have r3: "CURRENTLY_RUNNING w3 = CURRENTLY_RUNNING w @ [?q]"
    using load_cache_running [of env "add_running w ?q" ?q] by (simp add: add_running_def)
  have sc: "CURRENTLY_RUNNING (snd (store_cache env w3 ?q d)) = CURRENTLY_RUNNING w @ [?q]" for d
    using r3 by (simp add: store_cache_running)
  have a: "CURRENTLY_RUNNING (add_running w ?q) = CURRENTLY_RUNNING w @ [?q]"
    by (simp add: add_running_def)
  from ret show ?thesis
    unfolding perform_search_not_running [OF refl nr]
    by (auto simp: Let_def lc split: if_splits option.splits sum.splits prod.splits
        dest: rm [OF _ r3] rm [OF _ a] rm [OF _ sc [unfolded snd_conv]]
        intro: rm)
       (metis rm sc snd_conv)+
qed

lemma collect_done_values:
  "(\<And>i e. i \<in> set futures \<Longrightarrow> fate i = Raised e \<Longrightarrow> is_Exception e) \<Longrightarrow>
   collect_done fate futures results =
     Inr (results @ concat (map (\<lambda>i. successful_value (fate i)) futures))"
proof (induction futures arbitrary: results)
  case Nil
  then show ?case by simp
next
  case (Cons i futures)
  have ih: "collect_done fate futures rs =
      Inr (rs @ concat (map (\<lambda>i. successful_value (fate i)) futures))" for rs
    using Cons.prems by (intro Cons.IH) auto
  show ?case
  proof (cases "fate i")
    case (Returned r)
    then show ?thesis by (simp add: ih successful_value_def)
  next
    case (Raised e)
    with Cons.prems [of i e] have "is_Exception e" by simp
    with Raised show ?thesis by (simp add: ih successful_value_def)
  next
    case (Queued ends)
    then show ?thesis by (simp add: ih successful_value_def)
  next
    case (Running ends)
    then show ?thesis by (simp add: ih successful_value_def)
  qed
qed

lemma blocks_shutdown_cancelled:
  "(\<not> is_done f \<and> blocks_shutdown True f) = (f = Running False)"
  by (cases f) auto

lemma blocks_shutdown_not_done:
  "list_ex (\<lambda>i. blocks_shutdown True (fate i)) (filter (\<lambda>i. \<not> is_done (fate i)) xs) =
   list_ex (\<lambda>i. fate i = Running False) xs"
proof -
  have "list_ex (\<lambda>i. blocks_shutdown True (fate i)) (filter (\<lambda>i. \<not> is_done (fate i)) xs) =
        list_ex (\<lambda>i. \<not> is_done (fate i) \<and> blocks_shutdown True (fate i)) xs"
    by (auto simp: list_ex_iff)
  then show ?thesis by (simp only: blocks_shutdown_cancelled)
qed

lemma execute_search_invalid_pool:
  "max_threads \<le> 0 \<Longrightarrow>
   execute_search env sources search_methods results max_threads timeout = Some (Inl ValueError)"
  by (simp add: execute_search_def)

lemma concat_map_filter_irrelevant:
  "(\<And>x. x \<in> set xs \<Longrightarrow> \<not> P x \<Longrightarrow> g x = []) \<Longrightarrow>
   concat (map g (filter P xs)) = concat (map g xs)"
  by (induction xs) auto

lemma mset_concat_map_perm:
  "mset xs = mset ys \<Longrightarrow> mset (concat (map g xs)) = mset (concat (map g ys))"
proof -
  assume p: "mset xs = mset ys"
  have "mset (concat (map g zs)) = (\<Sum>x\<in>#mset zs. mset (g x))" for zs
    by (induction zs) simp_all
  with p show ?thesis by simp
qed

lemma example_id: "gen_cache_filename example_env (''host'' @ escape example_env ''example.com'') = example_query_id"
  by (simp add: gen_cache_filename_def example_env_def)

lemma example_path_join: "path_join CACHE_DIR example_query_id = example_path"
  by (simp add: path_join_def CACHE_DIR_def example_query_id_def example_path_def)

section \<open>Properties of the merge on shared objects\<close>

lemma length_hset: "length (hset h a k v) = length h"
  by (simp add: hset_def)

lemma hget_hset_other: "b \<noteq> a \<Longrightarrow> hget (hset h a k v) b = hget h b"
  by (simp add: hset_def hget_def)

lemma set_setitem: "set (setitem d k v) \<subseteq> insert (k, v) (set d)"
  by (induction d) (auto split: if_splits)

lemma children_hset_same: "children (hset h a k v) a \<subseteq> children h a \<union> refs_of v"
proof (cases "a < length h")
  case True
  then have "hget (hset h a k v) a = setitem (hget h a) k v" by (simp add: hset_def hget_def)
  then show ?thesis using set_setitem [of "hget h a" k v] by (fastforce simp: children_def)
next
  case False
  then show ?thesis by (simp add: hset_def hget_def children_def)
qed

lemma children_hset_other: "b \<noteq> a \<Longrightarrow> children (hset h a k v) b = children h b"
  by (simp add: children_def hget_hset_other)

lemma map_of_children: "map_of (hget h a) key = Some old \<Longrightarrow> refs_of old \<subseteq> children h a"
  by (auto simp: children_def dest!: map_of_SomeD intro: bexI [where x = "(key, old)"])

lemma nth_children: "i < length (hget h a) \<Longrightarrow> refs_of (snd (hget h a ! i)) \<subseteq> children h a"
proof -
  assume "i < length (hget h a)"
  then have "hget h a ! i \<in> set (hget h a)" by simp
  then show ?thesis by (auto simp: children_def)
qed

lemma frame_refl: "closed h S \<Longrightarrow> children h a1 \<subseteq> S \<Longrightarrow> frame S a1 h h"
  by (simp add: frame_def)

lemma frame_trans: "frame S a1 h h' \<Longrightarrow> frame S a1 h' h'' \<Longrightarrow> frame S a1 h h''"
  by (simp add: frame_def)

lemma frame_hset:
  assumes c: "closed h S" and a: "children h a1 \<subseteq> S" and v: "refs_of v \<subseteq> S"
  shows "frame S a1 h (hset h a1 k v)"
proof -
  have s: "children (hset h a1 k v) a1 \<subseteq> S"
    using children_hset_same [of h a1 k v] a v by auto
  have "closed (hset h a1 k v) S"
    unfolding closed_def
  proof
    fix b assume b: "b \<in> S"
    show "children (hset h a1 k v) b \<subseteq> S"
    proof (cases "b = a1")
      case True
      with s show ?thesis by simp
    next
      case False
      with c b show ?thesis by (simp add: children_hset_other closed_def)
    qed
  qed
  with s show ?thesis by (simp add: frame_def length_hset hget_hset_other)
qed

lemma frame_children:
  assumes f: "frame S a1 h h'" and b: "children h b \<subseteq> S"
  shows "children h' b \<subseteq> S"
proof (cases "b \<in> insert a1 S")
  case True
  with f show ?thesis by (auto simp: frame_def closed_def)
next
  case False
  with f have "hget h' b = hget h b" by (simp add: frame_def)
  with b show ?thesis by (simp add: children_def)
qed

lemma frame_nested:
  assumes o1: "o1 \<in> S" and f: "frame S o1 h h'" and a: "children h a1 \<subseteq> S"
  shows "frame S a1 h h'"
proof -
  from o1 have "insert o1 S = S" by auto
  with f have u: "\<forall>a. a \<notin> insert a1 S \<longrightarrow> hget h' a = hget h a" by (simp add: frame_def)
  from frame_children [OF f a] f u show ?thesis by (simp add: frame_def)
qed

lemma hhashable_no_refs: "hhashable x \<Longrightarrow> refs_of x = {}"
  by (cases x) simp_all

lemma hdedup_loop_hashable:
  "hdedup_loop items seen result = Inr l \<Longrightarrow> \<forall>x \<in> set result. hhashable x \<Longrightarrow>
   \<forall>x \<in> set l. hhashable x"
  by (induction items seen result rule: hdedup_loop.induct) (auto split: if_splits)

lemma hpreserve_order_dedup_no_refs:
  "hpreserve_order_dedup items = Inr l \<Longrightarrow> refs_of (HList l) = {}"
  using hdedup_loop_hashable [of items "{}" "[]" l]
  by (auto simp: hpreserve_order_dedup_def hhashable_no_refs)

lemma hmax_risk_cases: "hmax_risk a b = Inr r \<Longrightarrow> r = a \<or> r = b"
  by (auto simp: hmax_risk_def split: sum.splits if_splits)

lemma hmerge_loop_frame:
  "closed h S \<Longrightarrow> children h a1 \<subseteq> S \<Longrightarrow> children h a2 \<subseteq> S \<Longrightarrow>
   hmerge_loop depth h a1 a2 i len = (e, h') \<Longrightarrow> frame S a1 h h'"
proof (induction depth h a1 a2 i len arbitrary: e h' rule: hmerge_loop.induct)
  case (1 depth h a1 a2 i len)
  note c = "1.prems"(1) and k1 = "1.prems"(2) and k2 = "1.prems"(3) and run = "1.prems"(4)
  show ?case
  proof (cases "length (hget h a2) \<noteq> len \<or> len \<le> i")
    case True
    with run have "h' = h" by (subst (asm) hmerge_loop.simps) (auto split: if_splits)
    with c k1 show ?thesis by (simp add: frame_refl)
  next
    case False
    then have n1: "\<not> length (hget h a2) \<noteq> len" and n2: "\<not> len \<le> i" by simp_all
    define key where "key = fst (hget h a2 ! i)"
    define "value" where "value = snd (hget h a2 ! i)"
    have rv: "refs_of value \<subseteq> S"
      using nth_children [of i h a2] n1 n2 k2 by (auto simp: value_def)
    have store: "frame S a1 h h'"
      if r: "refs_of v \<subseteq> S"
        and ih: "\<And>e h'. closed (hset h a1 key v) S \<Longrightarrow> children (hset h a1 key v) a1 \<subseteq> S \<Longrightarrow>
               children (hset h a1 key v) a2 \<subseteq> S \<Longrightarrow>
               hmerge_loop depth (hset h a1 key v) a1 a2 (Suc i) len = (e, h') \<Longrightarrow>
               frame S a1 (hset h a1 key v) h'"
        and rest: "hmerge_loop depth (hset h a1 key v) a1 a2 (Suc i) len = (e, h')"
      for v
    proof -
      have f: "frame S a1 h (hset h a1 key v)" using c k1 r by (rule frame_hset)
      then have "closed (hset h a1 key v) S" "children (hset h a1 key v) a1 \<subseteq> S"
        by (simp_all add: frame_def)
      moreover have "children (hset h a1 key v) a2 \<subseteq> S" using f k2 by (rule frame_children)
      ultimately have "frame S a1 (hset h a1 key v) h'" using rest by (rule ih)
      with f show ?thesis by (rule frame_trans)
    qed
    show ?thesis
    proof (cases "map_of (hget h a1) key")
      case None
      from run n1 n2 None
      have rest: "hmerge_loop depth (hset h a1 key value) a1 a2 (Suc i) len = (e, h')"
        by (subst (asm) hmerge_loop.simps) (simp add: Let_def key_def value_def)
      show ?thesis
        using rv "1.IH"(1) [OF n1 n2 key_def value_def None] rest by (rule store)
    next
      case (Some old)
      have ro: "refs_of old \<subseteq> S" using map_of_children [OF Some] k1 by auto
      show ?thesis
      proof (cases "is_ref old \<and> is_ref value")
        case True
        then obtain o1 o2 where old: "old = HRef o1" and val: "value = HRef o2"
          by (cases old; cases "value") auto
        from ro rv old val have o1: "o1 \<in> S" and o2: "o2 \<in> S" by auto
        with c have ko1: "children h o1 \<subseteq> S" and ko2: "children h o2 \<subseteq> S"
          by (auto simp: closed_def)
        show ?thesis
        proof (cases depth)
          case 0
          with run n1 n2 Some True have "h' = h"
            by (subst (asm) hmerge_loop.simps) (simp add: Let_def key_def value_def)
          with c k1 show ?thesis by (simp add: frame_refl)
        next
          case (Suc d)
          obtain e1 h1 where inner: "hmerge_loop d h o1 o2 0 (length (hget h o2)) = (e1, h1)"
            by (cases "hmerge_loop d h o1 o2 0 (length (hget h o2))")
          have "frame S o1 h h1"
            using "1.IH"(2) [OF n1 n2 key_def value_def Some True Suc, of e1 h1]
              c ko1 ko2 inner by (simp add: old val)
          with o1 have f1: "frame S a1 h h1" using k1 by (rule frame_nested)
          show ?thesis
          proof (cases e1)
            case (Some x)
            with run n1 n2 \<open>map_of (hget h a1) key = Some old\<close> True Suc inner
            have "h' = h1"
              by (subst (asm) hmerge_loop.simps) (simp add: Let_def key_def value_def old val [unfolded value_def])
            with f1 show ?thesis by simp
          next
            case None
            with run n1 n2 \<open>map_of (hget h a1) key = Some old\<close> True Suc inner
            have rest: "hmerge_loop depth h1 a1 a2 (Suc i) len = (e, h')"
              by (subst (asm) hmerge_loop.simps) (simp add: Let_def key_def value_def old val [unfolded value_def])
            from f1 have c1: "closed h1 S" and k11: "children h1 a1 \<subseteq> S" by (simp_all add: frame_def)
            have k12: "children h1 a2 \<subseteq> S" using f1 k2 by (rule frame_children)
            have pr: "(e1, h1) = hmerge_loop d h (the_ref old) (the_ref value) 0
                        (length (hget h (the_ref value)))"
              using inner by (simp add: old val)
            have "frame S a1 h1 h'"
              using "1.IH"(3) [OF n1 n2 key_def value_def \<open>map_of (hget h a1) key = Some old\<close> True Suc pr None,
                  OF c1 k11 k12 rest] .
            with f1 show ?thesis by (rule frame_trans)
          qed
        qed
      next
        case False
        then have nref: "(is_ref old \<and> is_ref (snd (hget h a2 ! i))) = False"
          by (simp add: value_def)
        note nref' = False
        show ?thesis
        proof (cases "is_hlist old \<and> is_hlist value")
          case True
          show ?thesis
          proof (cases "hpreserve_order_dedup (the_hlist old @ the_hlist value)")
            case (Inl x)
            with run n1 n2 Some True have "h' = h"
              by (subst (asm) hmerge_loop.simps) (simp add: Let_def key_def value_def nref)
            with c k1 show ?thesis by (simp add: frame_refl)
          next
            case (Inr l)
            with run n1 n2 Some True
            have rest: "hmerge_loop depth (hset h a1 key (HList l)) a1 a2 (Suc i) len = (e, h')"
              by (subst (asm) hmerge_loop.simps) (simp add: Let_def key_def value_def nref)
            have "refs_of (HList l) \<subseteq> S"
              using hpreserve_order_dedup_no_refs [OF Inr] by simp
            then show ?thesis
              using "1.IH"(4) [OF n1 n2 key_def value_def Some nref' True Inr] rest by (rule store)
          qed
        next
          case False
          then have nlist: "(is_hlist old \<and> is_hlist (snd (hget h a2 ! i))) = False"
            by (simp add: value_def)
          note nlist' = False
          show ?thesis
          proof (cases "key = ''risk''")
            case True
            show ?thesis
            proof (cases "hmax_risk old value")
              case (Inl x)
              with run n1 n2 Some True have "h' = h"
                by (subst (asm) hmerge_loop.simps) (simp add: Let_def key_def value_def nref nlist)
              with c k1 show ?thesis by (simp add: frame_refl)
            next
              case (Inr r)
              with run n1 n2 Some True
              have rest: "hmerge_loop depth (hset h a1 key r) a1 a2 (Suc i) len = (e, h')"
                by (subst (asm) hmerge_loop.simps) (simp add: Let_def key_def value_def nref nlist)
              have "refs_of r \<subseteq> S" using hmax_risk_cases [OF Inr] ro rv by auto
              then show ?thesis
                using "1.IH"(5) [OF n1 n2 key_def value_def Some nref' nlist' True Inr] rest
                by (rule store)
            qed
          next
            case False
            with run n1 n2 Some
            have rest: "hmerge_loop depth (hset h a1 key value) a1 a2 (Suc i) len = (e, h')"
              by (subst (asm) hmerge_loop.simps) (simp add: Let_def key_def value_def nref nlist)
            show ?thesis
              using rv "1.IH"(6) [OF n1 n2 key_def value_def Some nref' nlist' False] rest
              by (rule store)
          qed
        qed
      qed
    qed
  qed
qed

lemma hget_append_empty: "hget (h @ [[]]) a = hget h a"
  by (auto simp: hget_def nth_append)

lemma children_append_empty: "children (h @ [[]]) a = children h a"
  by (simp add: children_def hget_append_empty)

lemma closed_append_empty: "closed (h @ [[]]) S = closed h S"
  by (simp add: closed_def children_append_empty)

lemma hmerge_recursive_frame:
  assumes "closed h S" and "children h a1 \<subseteq> S" and "children h a2 \<subseteq> S"
    and "hmerge_recursive depth h a1 a2 = (e, h')"
  shows "frame S a1 h h'"
proof (cases depth)
  case 0
  with assms show ?thesis by (simp add: hmerge_recursive_def frame_refl)
next
  case (Suc d)
  with assms(4) have "hmerge_loop d h a1 a2 0 (length (hget h a2)) = (e, h')"
    by (simp add: hmerge_recursive_def)
  with assms(1-3) show ?thesis by (rule hmerge_loop_frame)
qed

lemma hmerge_all_frame:
  "closed h S \<Longrightarrow> children h acc \<subseteq> S \<Longrightarrow>
   (\<And>a. HRef a \<in> set responses \<Longrightarrow> children h a \<subseteq> S) \<Longrightarrow>
   hmerge_all depth h acc responses = (e, h') \<Longrightarrow> frame S acc h h'"
proof (induction responses arbitrary: h)
  case Nil
  then show ?case by (simp add: frame_refl)
next
  case (Cons d responses)
  show ?case
  proof (cases "is_ref d")
    case False
    with Cons.prems show ?thesis by (simp add: frame_refl)
  next
    case True
    then obtain a where d: "d = HRef a" by (cases d) auto
    obtain e1 h1 where m: "hmerge_recursive depth h acc a = (e1, h1)"
      by (cases "hmerge_recursive depth h acc a")
    have ka: "children h a \<subseteq> S" using Cons.prems(3) [of a] by (simp add: d)
    have f1: "frame S acc h h1"
      using Cons.prems(1,2) ka m by (rule hmerge_recursive_frame)
    show ?thesis
    proof (cases e1)
      case (Some x)
      with Cons.prems(4) m d have "h' = h1" by simp
      with f1 show ?thesis by simp
    next
      case None
      with Cons.prems(4) m d have rest: "hmerge_all depth h1 acc responses = (e, h')" by simp
      from f1 have c1: "closed h1 S" and k1: "children h1 acc \<subseteq> S" by (simp_all add: frame_def)
      have "frame S acc h1 h'"
      proof (rule Cons.IH [OF c1 k1 _ rest])
        fix b assume "HRef b \<in> set responses"
        then have "children h b \<subseteq> S" using Cons.prems(3) [of b] by simp
        with f1 show "children h1 b \<subseteq> S" by (rule frame_children)
      qed
      with f1 show ?thesis by (rule frame_trans)
    qed
  qed
qed

lemma example_models_agree:
  "map_sum id (value_of 3 example_heap_merged \<circ> HRef \<circ> snd)
       (case hmerge_responses 1000 example_heap [HRef 0, HRef 3] of
          (None, r) \<Rightarrow> Inr r | (Some e, r) \<Rightarrow> Inl e)
   = merge_responses [value_of 3 example_heap (HRef 0), value_of 3 example_heap (HRef 3)]"
  by code_simp

section \<open>The properties of the specification\<close>

subsection \<open>Validated construction\<close>

text \<open>
  C9. \<open>gen_response\<close> raises \<open>ValueError\<close> exactly when the risk is not one of Low,
  Medium, High, Dangerous. For a valid risk it returns
  \<open>{"risk": risk, "notices": {source: {"id": notice_id, "charges": charges}}}\<close>, where a
  string given as charges has been wrapped into a one-element list and any other charges
  argument is taken as it is.
\<close>

theorem gen_response_raises_iff_invalid_risk:
  "(gen_response risk source notice_id charges = Inl ValueError \<longleftrightarrow> risk \<notin> set RISK_LEVELS) \<and>
   (risk \<in> set RISK_LEVELS \<longrightarrow>
      gen_response risk source notice_id (VStr c) =
        Inr (VDict [(''risk'', VStr risk),
               (''notices'', VDict [(source, VDict [(''id'', VStr notice_id),
                  (''charges'', VList [VStr c])])])])) \<and>
   (risk \<in> set RISK_LEVELS \<longrightarrow> \<not> is_str charges \<longrightarrow>
      gen_response risk source notice_id charges =
        Inr (VDict [(''risk'', VStr risk),
               (''notices'', VDict [(source, VDict [(''id'', VStr notice_id),
                  (''charges'', charges)])])]))"
  by (simp add: gen_response_def)

theorem gen_response_raises_iff_invalid_risk_witness:
  "''High'' \<in> set RISK_LEVELS \<and> ''Critical'' \<notin> set RISK_LEVELS \<and>
   \<not> is_str (VList [VStr ''Murder'', VStr ''Theft'']) \<and>
   gen_response ''Critical'' ''fbi-most-wanted'' ''12345'' (VList [VStr ''Fraud'']) = Inl ValueError \<and>
   gen_response ''High'' ''interpol'' ''ABC123'' (VStr ''Unknown'') =
     Inr (VDict [(''risk'', VStr ''High''),
            (''notices'', VDict [(''interpol'', VDict [(''id'', VStr ''ABC123''),
               (''charges'', VList [VStr ''Unknown''])])])]) \<and>
   gen_response ''High'' ''interpol'' ''ABC123'' (VList [VStr ''Murder'', VStr ''Theft'']) =
     Inr (VDict [(''risk'', VStr ''High''),
            (''notices'', VDict [(''interpol'', VDict [(''id'', VStr ''ABC123''),
               (''charges'', VList [VStr ''Murder'', VStr ''Theft''])])])])"
proof -
  have v: "''High'' \<in> set RISK_LEVELS" and i: "''Critical'' \<notin> set RISK_LEVELS"
    by (simp_all add: RISK_LEVELS_def)
  have l: "\<not> is_str (VList [VStr ''Murder'', VStr ''Theft''])" by simp
  note a = gen_response_raises_iff_invalid_risk
    [of "''Critical''" "''fbi-most-wanted''" "''12345''" "VList [VStr ''Fraud'']" "''x''"]
  note b = gen_response_raises_iff_invalid_risk
    [of "''High''" "''interpol''" "''ABC123''" "VList [VStr ''Murder'', VStr ''Theft'']" "''Unknown''"]
  from a i have 1: "gen_response ''Critical'' ''fbi-most-wanted'' ''12345'' (VList [VStr ''Fraud'']) = Inl ValueError"
    by blast
  from b v l show ?thesis using 1 i by blast
qed

subsection \<open>Risk of a merged result\<close>

lemma merge_responses_risk_bound:
  assumes ne: "results \<noteq> []" and wf: "list_all is_partial_result results"
  shows "\<exists>R. merge_responses results = Inr R \<and> is_partial_result R \<and>
           risk_of R \<in> risk_of ` set results \<and>
           (\<forall>v \<in> set results. severity (risk_of v) \<le> severity (risk_of R))"
proof -
  from ne obtain v rs where res: "results = v # rs" by (cases results) auto
  with wf have v: "is_partial_result v" and rs: "list_all is_partial_result rs" by simp_all
  let ?r = "foldl join_risk (risk_of v) (map risk_of rs)"
  let ?a = "foldl (join_dict join_notice) (notices_of v) (map notices_of rs)"
  have m: "merge_responses results = Inr (enc_result ?r ?a)"
    unfolding res using v rs by (rule merge_responses_results)
  have rv: "risk_of v \<in> set RISK_LEVELS" using v by (rule is_partial_result_dec)
  have rrs: "set (map risk_of rs) \<subseteq> set RISK_LEVELS"
    using rs by (auto simp: list_all_iff is_partial_result_dec)
  note mx = foldl_join_risk_max [OF rv rrs]
  have da: "distinct (map fst ?a)"
    using is_partial_result_dec(3) [OF v]
    by (induction rs arbitrary: v rule: rev_induct) (simp_all add: join_dict_distinct)
  have "?r \<in> set RISK_LEVELS" using mx rv rrs by auto
  then have wfR: "is_partial_result (enc_result ?r ?a)"
    using da by (rule is_partial_result_enc_result)
  from mx have "?r \<in> risk_of ` set results" by (auto simp: res)
  moreover from mx have "\<forall>v \<in> set results. severity (risk_of v) \<le> severity ?r"
    by (simp add: res)
  ultimately show ?thesis using m wfR by (auto simp: risk_of_enc_result)
qed

lemma severity_inj:
  "r1 \<in> set RISK_LEVELS \<Longrightarrow> r2 \<in> set RISK_LEVELS \<Longrightarrow> severity r1 = severity r2 \<Longrightarrow> r1 = r2"
  by (auto simp: RISK_LEVELS_def severity_def)

text \<open>
  C4. For a non-empty list of partial results, each with a valid risk, \<open>merge_responses\<close>
  returns a result whose risk is the maximum of the input risks under
  Low < Medium < High < Dangerous: it is the risk of one of the inputs and no input has a
  higher severity. Every permutation of the inputs merges to a result with the same risk.
\<close>

theorem merged_risk_is_maximum:
  assumes ne: "results \<noteq> []" and wf: "list_all is_partial_result results"
  shows "\<exists>R. merge_responses results = Inr R \<and> is_partial_result R \<and>
           risk_of R \<in> risk_of ` set results \<and>
           (\<forall>v \<in> set results. severity (risk_of v) \<le> severity (risk_of R)) \<and>
           (\<forall>results'. mset results' = mset results \<longrightarrow>
              (\<exists>R'. merge_responses results' = Inr R' \<and> risk_of R' = risk_of R))"
proof -
  from merge_responses_risk_bound [OF ne wf] obtain R where
    R: "merge_responses results = Inr R" "is_partial_result R"
       "risk_of R \<in> risk_of ` set results"
       "\<forall>v \<in> set results. severity (risk_of v) \<le> severity (risk_of R)"
    by blast
  have "\<exists>R'. merge_responses results' = Inr R' \<and> risk_of R' = risk_of R"
    if p: "mset results' = mset results" for results'
  proof -
    from p have s: "set results' = set results" by (rule mset_eq_setD)
    with ne have ne': "results' \<noteq> []" by auto
    from s wf have wf': "list_all is_partial_result results'" by (simp add: list_all_iff)
    from merge_responses_risk_bound [OF ne' wf'] obtain R' where
      R': "merge_responses results' = Inr R'" "is_partial_result R'"
         "risk_of R' \<in> risk_of ` set results'"
         "\<forall>v \<in> set results'. severity (risk_of v) \<le> severity (risk_of R')"
      by blast
    from R(3,4) R'(3,4) s have "severity (risk_of R') = severity (risk_of R)"
      by (auto intro: antisym)
    moreover have "risk_of R \<in> set RISK_LEVELS" "risk_of R' \<in> set RISK_LEVELS"
      using R(2) R'(2) by (simp_all add: is_partial_result_dec)
    ultimately have "risk_of R' = risk_of R" by (simp add: severity_inj)
    with R'(1) show ?thesis by blast
  qed
  with R show ?thesis by blast
qed

theorem merged_risk_is_maximum_witness:
  "[VDict [(''risk'', VStr ''Low''), (''notices'', VDict [])],
    VDict [(''risk'', VStr ''Dangerous''), (''notices'', VDict [])],
    VDict [(''risk'', VStr ''Medium''), (''notices'', VDict [])]] \<noteq> [] \<and>
   list_all is_partial_result
     [VDict [(''risk'', VStr ''Low''), (''notices'', VDict [])],
      VDict [(''risk'', VStr ''Dangerous''), (''notices'', VDict [])],
      VDict [(''risk'', VStr ''Medium''), (''notices'', VDict [])]] \<and>
   (\<exists>R. merge_responses
          [VDict [(''risk'', VStr ''Low''), (''notices'', VDict [])],
           VDict [(''risk'', VStr ''Dangerous''), (''notices'', VDict [])],
           VDict [(''risk'', VStr ''Medium''), (''notices'', VDict [])]] = Inr R \<and>
        risk_of R = ''Dangerous'')"
proof -
  let ?rs = "[VDict [(''risk'', VStr ''Low''), (''notices'', VDict [])],
              VDict [(''risk'', VStr ''Dangerous''), (''notices'', VDict [])],
              VDict [(''risk'', VStr ''Medium''), (''notices'', VDict [])]]"
  have ne: "?rs \<noteq> []" by simp
  have wf: "list_all is_partial_result ?rs" by (simp add: RISK_LEVELS_def)
  from merged_risk_is_maximum [OF ne wf] obtain R where
    R: "merge_responses ?rs = Inr R" and
    up: "\<forall>v \<in> set ?rs. severity (risk_of v) \<le> severity (risk_of R)" and
    mem: "risk_of R \<in> risk_of ` set ?rs"
    by blast
  from up have "severity ''Dangerous'' \<le> severity (risk_of R)"
    by (simp add: risk_of_def)
  moreover from mem have "risk_of R = ''Low'' \<or> risk_of R = ''Dangerous'' \<or> risk_of R = ''Medium''"
    by (simp add: risk_of_def)
  ultimately have "risk_of R = ''Dangerous''"
    by (auto simp: severity_def)
  with R ne wf show ?thesis by blast
qed

subsection \<open>Charges of a merged result\<close>

text \<open>
  C5. When two partial results both have a notice under the source key \<open>src\<close>, with
  charges \<open>c1\<close> and \<open>c2\<close>, the merged result has under \<open>src\<close> the charges \<open>c1 @ c2\<close>
  with every duplicate removed except its first occurrence. Merging the charges
  ["A", "B"] and ["B", "C"] gives ["A", "B", "C"].
\<close>

theorem merged_charges_concat_dedup:
  assumes A: "is_partial_result A" and B: "is_partial_result B"
    and c1: "charges_of A src = Some c1" and c2: "charges_of B src = Some c2"
  shows "\<exists>R. merge_responses [A, B] = Inr R \<and> charges_of R src = Some (keep_first (c1 @ c2))"
proof -
  note a = is_partial_result_dec [OF A] and b = is_partial_result_dec [OF B]
  have "charges_of A src = map_option (\<lambda>n. map VStr (snd n)) (map_of (notices_of A) src)"
    using charges_of_enc_result [of "risk_of A" "notices_of A" src]
    by (simp only: a(1) [symmetric])
  with c1 obtain n1 where n1: "map_of (notices_of A) src = Some n1" "c1 = map VStr (snd n1)"
    by (cases "map_of (notices_of A) src") auto
  have "charges_of B src = map_option (\<lambda>n. map VStr (snd n)) (map_of (notices_of B) src)"
    using charges_of_enc_result [of "risk_of B" "notices_of B" src]
    by (simp only: b(1) [symmetric])
  with c2 obtain n2 where n2: "map_of (notices_of B) src = Some n2" "c2 = map VStr (snd n2)"
    by (cases "map_of (notices_of B) src") auto
  have "inj VStr" by (simp add: inj_on_def)
  then have k: "keep_first (map VStr (snd n1 @ snd n2)) = map VStr (keep_first (snd n1 @ snd n2))"
    by (rule keep_first_map_inj)
  have "map_of (join_dict join_notice (notices_of A) (notices_of B)) src = Some (join_notice n1 n2)"
    using b(3) n1(1) n2(1) by (simp add: join_dict_map_of)
  then have "charges_of (enc_result (join_risk (risk_of A) (risk_of B))
                     (join_dict join_notice (notices_of A) (notices_of B))) src
       = Some (keep_first (c1 @ c2))"
    using k by (simp add: charges_of_enc_result join_notice_def n1(2) n2(2))
  with merge_responses_pair [OF A B] show ?thesis by simp
qed

theorem merged_charges_concat_dedup_witness:
  "is_partial_result (VDict [(''risk'', VStr ''Low''), (''notices'', VDict [(''X'',
      VDict [(''id'', VStr ''1''), (''charges'', VList [VStr ''A'', VStr ''B''])])])]) \<and>
   is_partial_result (VDict [(''risk'', VStr ''Low''), (''notices'', VDict [(''X'',
      VDict [(''id'', VStr ''1''), (''charges'', VList [VStr ''B'', VStr ''C''])])])]) \<and>
   charges_of (VDict [(''risk'', VStr ''Low''), (''notices'', VDict [(''X'',
      VDict [(''id'', VStr ''1''), (''charges'', VList [VStr ''A'', VStr ''B''])])])]) ''X''
     = Some [VStr ''A'', VStr ''B''] \<and>
   charges_of (VDict [(''risk'', VStr ''Low''), (''notices'', VDict [(''X'',
      VDict [(''id'', VStr ''1''), (''charges'', VList [VStr ''B'', VStr ''C''])])])]) ''X''
     = Some [VStr ''B'', VStr ''C''] \<and>
   (\<exists>R. merge_responses
      [VDict [(''risk'', VStr ''Low''), (''notices'', VDict [(''X'',
         VDict [(''id'', VStr ''1''), (''charges'', VList [VStr ''A'', VStr ''B''])])])],
       VDict [(''risk'', VStr ''Low''), (''notices'', VDict [(''X'',
         VDict [(''id'', VStr ''1''), (''charges'', VList [VStr ''B'', VStr ''C''])])])]] = Inr R \<and>
      charges_of R ''X'' = Some [VStr ''A'', VStr ''B'', VStr ''C''])"
proof -
  let ?A = "VDict [(''risk'', VStr ''Low''), (''notices'', VDict [(''X'',
      VDict [(''id'', VStr ''1''), (''charges'', VList [VStr ''A'', VStr ''B''])])])]"
  let ?B = "VDict [(''risk'', VStr ''Low''), (''notices'', VDict [(''X'',
      VDict [(''id'', VStr ''1''), (''charges'', VList [VStr ''B'', VStr ''C''])])])]"
  have A: "is_partial_result ?A" and B: "is_partial_result ?B"
    by (simp_all add: RISK_LEVELS_def)
  have c1: "charges_of ?A ''X'' = Some [VStr ''A'', VStr ''B'']"
    and c2: "charges_of ?B ''X'' = Some [VStr ''B'', VStr ''C'']"
    by (simp_all add: charges_of_def)
  have "keep_first ([VStr ''A'', VStr ''B''] @ [VStr ''B'', VStr ''C'']) = [VStr ''A'', VStr ''B'', VStr ''C'']"
    by simp
  with merged_charges_concat_dedup [OF A B c1 c2] A B c1 c2 show ?thesis by simp
qed

subsection \<open>Associativity\<close>

text \<open>
  C1. For well-formed partial results \<open>A\<close>, \<open>B\<close> and \<open>C\<close> the three ways of merging
  return the same result: \<open>merge_responses [A, B, C]\<close>, the merge of \<open>merge_responses [A, B]\<close>
  with \<open>C\<close>, and the merge of \<open>A\<close> with \<open>merge_responses [B, C]\<close>; none of the calls raises.
\<close>

theorem merge_responses_associative:
  assumes A: "is_partial_result A" and B: "is_partial_result B" and C: "is_partial_result C"
  shows "\<exists>AB BC R. merge_responses [A, B] = Inr AB \<and> merge_responses [B, C] = Inr BC \<and>
           merge_responses [A, B, C] = Inr R \<and>
           merge_responses [AB, C] = Inr R \<and>
           merge_responses [A, BC] = Inr R"
proof -
  note a = is_partial_result_dec [OF A] and b = is_partial_result_dec [OF B]
    and c = is_partial_result_dec [OF C]
  let ?AB = "enc_result (join_risk (risk_of A) (risk_of B))
                        (join_dict join_notice (notices_of A) (notices_of B))"
  let ?BC = "enc_result (join_risk (risk_of B) (risk_of C))
                        (join_dict join_notice (notices_of B) (notices_of C))"
  let ?R = "enc_result (join_risk (join_risk (risk_of A) (risk_of B)) (risk_of C))
      (join_dict join_notice (join_dict join_notice (notices_of A) (notices_of B)) (notices_of C))"
  have wfAB: "is_partial_result ?AB"
    using a(2,3) b(2) by (intro is_partial_result_enc_result join_risk_valid join_dict_distinct)
  have wfBC: "is_partial_result ?BC"
    using b(2,3) c(2) by (intro is_partial_result_enc_result join_risk_valid join_dict_distinct)
  have 1: "merge_responses [A, B] = Inr ?AB" using A B by (rule merge_responses_pair)
  have 2: "merge_responses [B, C] = Inr ?BC" using B C by (rule merge_responses_pair)
  have 3: "merge_responses [A, B, C] = Inr ?R"
    using merge_responses_results [OF A, of "[B, C]"] B C by simp
  have 4: "merge_responses [?AB, C] = Inr ?R"
    using merge_responses_pair [OF wfAB C]
    by (simp add: risk_of_enc_result notices_of_enc_result)
  have "join_risk (risk_of A) (join_risk (risk_of B) (risk_of C)) =
        join_risk (join_risk (risk_of A) (risk_of B)) (risk_of C)"
    using a(2) b(2) c(2) by (simp add: join_risk_assoc)
  moreover have "join_dict join_notice (notices_of A) (join_dict join_notice (notices_of B) (notices_of C)) =
        join_dict join_notice (join_dict join_notice (notices_of A) (notices_of B)) (notices_of C)"
    using a(3) b(3) c(3) by (simp add: join_dict_assoc join_notice_assoc)
  ultimately have 5: "merge_responses [A, ?BC] = Inr ?R"
    using merge_responses_pair [OF A wfBC]
    by (simp add: risk_of_enc_result notices_of_enc_result)
  from 1 2 3 4 5 show ?thesis by blast
qed

theorem merge_responses_associative_witness:
  "is_partial_result (VDict [(''risk'', VStr ''High''), (''notices'', VDict [(''a'',
      VDict [(''id'', VStr ''1''), (''charges'', VList [VStr ''X''])])])]) \<and>
   is_partial_result (VDict [(''risk'', VStr ''Low''), (''notices'', VDict [(''a'',
      VDict [(''id'', VStr ''7''), (''charges'', VList [VStr ''Y'', VStr ''X''])])])]) \<and>
   is_partial_result (VDict [(''risk'', VStr ''Dangerous''), (''notices'', VDict [(''c'',
      VDict [(''id'', VStr ''2''), (''charges'', VList [VStr ''Y''])])])]) \<and>
   (\<exists>AB BC R.
      merge_responses
        [VDict [(''risk'', VStr ''High''), (''notices'', VDict [(''a'',
           VDict [(''id'', VStr ''1''), (''charges'', VList [VStr ''X''])])])],
         VDict [(''risk'', VStr ''Low''), (''notices'', VDict [(''a'',
           VDict [(''id'', VStr ''7''), (''charges'', VList [VStr ''Y'', VStr ''X''])])])]] = Inr AB \<and>
      merge_responses
        [VDict [(''risk'', VStr ''Low''), (''notices'', VDict [(''a'',
           VDict [(''id'', VStr ''7''), (''charges'', VList [VStr ''Y'', VStr ''X''])])])],
         VDict [(''risk'', VStr ''Dangerous''), (''notices'', VDict [(''c'',
           VDict [(''id'', VStr ''2''), (''charges'', VList [VStr ''Y''])])])]] = Inr BC \<and>
      merge_responses
        [VDict [(''risk'', VStr ''High''), (''notices'', VDict [(''a'',
           VDict [(''id'', VStr ''1''), (''charges'', VList [VStr ''X''])])])],
         VDict [(''risk'', VStr ''Low''), (''notices'', VDict [(''a'',
           VDict [(''id'', VStr ''7''), (''charges'', VList [VStr ''Y'', VStr ''X''])])])],
         VDict [(''risk'', VStr ''Dangerous''), (''notices'', VDict [(''c'',
           VDict [(''id'', VStr ''2''), (''charges'', VList [VStr ''Y''])])])]] = Inr R \<and>
      merge_responses
        [AB, VDict [(''risk'', VStr ''Dangerous''), (''notices'', VDict [(''c'',
           VDict [(''id'', VStr ''2''), (''charges'', VList [VStr ''Y''])])])]] = Inr R \<and>
      merge_responses
        [VDict [(''risk'', VStr ''High''), (''notices'', VDict [(''a'',
           VDict [(''id'', VStr ''1''), (''charges'', VList [VStr ''X''])])])], BC] = Inr R)"
proof -
  let ?A = "VDict [(''risk'', VStr ''High''), (''notices'', VDict [(''a'',
      VDict [(''id'', VStr ''1''), (''charges'', VList [VStr ''X''])])])]"
  let ?B = "VDict [(''risk'', VStr ''Low''), (''notices'', VDict [(''a'',
      VDict [(''id'', VStr ''7''), (''charges'', VList [VStr ''Y'', VStr ''X''])])])]"
  let ?C = "VDict [(''risk'', VStr ''Dangerous''), (''notices'', VDict [(''c'',
      VDict [(''id'', VStr ''2''), (''charges'', VList [VStr ''Y''])])])]"
  have A: "is_partial_result ?A" and B: "is_partial_result ?B" and C: "is_partial_result ?C"
    by (simp_all add: RISK_LEVELS_def)
  from merge_responses_associative [OF A B C] A B C show ?thesis by blast
qed

subsection \<open>Staleness of a cache entry\<close>

text \<open>
  C6, as stated, fails: an entry whose timestamp lies 5 days and 1 second back is older
  than the 5-day window, yet \<open>load_cache\<close> returns its data and leaves the file in place,
  because the age is truncated to whole days before it is compared with \<open>CACHE_MAX_DAYS\<close>.
\<close>

theorem load_cache_serves_entry_past_five_days:
  "(432001 :: real) - real_of_int 0 > 5 * 86400 \<and>
   files (world_at [] example_files 432001) (path_join CACHE_DIR example_query_id) = Some example_text \<and>
   loads example_env example_text = Some (VDict [(''timestamp'', VInt 0), (''data'', example_data)]) \<and>
   load_cache example_env (world_at [] example_files 432001) example_query_id
     = (example_data, world_at [] example_files 432001) \<and>
   example_data \<noteq> VNone \<and>
   files (world_at [] example_files 432001) example_path \<noteq> None"
  by (simp add: load_cache_def example_path_join world_at_def example_files_def example_env_def
      py_int_def CACHE_MAX_DAYS_def example_data_def float_convertible_def)

text \<open>
  C6, amended. For a stored entry (the file holds \<open>{"timestamp": ts, "data": data}\<close>): when
  at least six full days, 518400 seconds, have passed since the timestamp, the number of
  whole days \<open>int((now - ts) / 86400)\<close> exceeds \<open>CACHE_MAX_DAYS\<close> and \<open>load_cache\<close> returns
  \<open>None\<close>; it also deletes the file, provided the timestamp is within the range of a float
  and \<open>os.remove\<close> succeeds.
\<close>

theorem load_cache_evicts_after_whole_days:
  assumes "files w (path_join CACHE_DIR filename) = Some text"
    and "loads env text = Some (VDict [(''timestamp'', VInt ts), (''data'', data)])"
    and "clock w - real_of_int ts \<ge> 518400"
  shows "py_int ((clock w - real_of_int ts) / 86400) > CACHE_MAX_DAYS \<and>
     fst (load_cache env w filename) = VNone \<and>
     (float_convertible ts \<and> remove_error env (path_join CACHE_DIR filename) = None \<longrightarrow>
        snd (load_cache env w filename)
          = w\<lparr>files := (files w)(path_join CACHE_DIR filename := None)\<rparr>)"
  using assms py_int_days_gt_iff [of "clock w - real_of_int ts"]
  by (simp add: load_cache_entry split: option.splits)

theorem load_cache_evicts_after_whole_days_witness:
  "files (world_at [] example_files 518400) (path_join CACHE_DIR example_query_id) = Some example_text \<and>
   loads example_env example_text = Some (VDict [(''timestamp'', VInt 0), (''data'', example_data)]) \<and>
   clock (world_at [] example_files 518400) - real_of_int 0 \<ge> 518400 \<and>
   float_convertible 0 \<and>
   remove_error example_env (path_join CACHE_DIR example_query_id) = None \<and>
   load_cache example_env (world_at [] example_files 518400) example_query_id
     = (VNone, world_at [] no_files 518400)"
proof -
  have f: "files (world_at [] example_files 518400) (path_join CACHE_DIR example_query_id) = Some example_text"
    by (simp add: world_at_def example_files_def example_path_join)
  have l: "loads example_env example_text = Some (VDict [(''timestamp'', VInt 0), (''data'', example_data)])"
    by (simp add: example_env_def)
  have a: "clock (world_at [] example_files 518400) - real_of_int 0 \<ge> 518400"
    by (simp add: world_at_def)
  have c: "float_convertible 0" by (simp add: float_convertible_def)
  have r: "remove_error example_env (path_join CACHE_DIR example_query_id) = None"
    by (simp add: example_env_def)
  have u: "(world_at [] example_files 518400)\<lparr>files := (files (world_at [] example_files 518400))
          (path_join CACHE_DIR example_query_id := None)\<rparr> = world_at [] no_files 518400"
    by (simp add: world_at_def example_files_def example_path_join no_files_def)
  from load_cache_evicts_after_whole_days [OF f l a] c r u
  have "fst (load_cache example_env (world_at [] example_files 518400) example_query_id) = VNone"
    and "snd (load_cache example_env (world_at [] example_files 518400) example_query_id)
         = world_at [] no_files 518400"
    by simp_all
  then have "load_cache example_env (world_at [] example_files 518400) example_query_id
     = (VNone, world_at [] no_files 518400)"
    by (simp add: prod_eq_iff)
  with f l a c r show ?thesis by simp
qed

subsection \<open>Round trip through the cache\<close>

text \<open>
  C7. When \<open>store_cache(filename, data)\<close> succeeds and the JSON text of the entry parses
  back to the entry, a \<open>load_cache(filename)\<close> at any later reading \<open>t\<close> of the clock that
  is less than six days after the stored timestamp returns \<open>data\<close> and changes nothing.
  That covers every load within the 5-day window. The reading of the clock at the store
  is a float, as every value of \<open>time.time()\<close> is.
\<close>

theorem cache_round_trip:
  assumes st: "store_cache env w filename data = (Inr True, w')"
    and rt: "loads env (dumps env (VDict [(''timestamp'', VInt (py_int (clock w))), (''data'', data)]))
             = Some (VDict [(''timestamp'', VInt (py_int (clock w))), (''data'', data)])"
    and win: "t - real_of_int (py_int (clock w)) < 6 * 86400"
    and now: "float_range (clock w)"
  shows "load_cache env (w'\<lparr>clock := t\<rparr>) filename = (data, w'\<lparr>clock := t\<rparr>)"
proof -
  let ?p = "path_join CACHE_DIR filename"
  let ?e = "VDict [(''timestamp'', VInt (py_int (clock w))), (''data'', data)]"
  from st have w': "w' = w\<lparr>files := (files w)(?p \<mapsto> dumps env ?e)\<rparr>"
    by (auto simp: store_cache_def Let_def split: option.splits if_splits)
  then have f: "files (w'\<lparr>clock := t\<rparr>) ?p = Some (dumps env ?e)" by simp
  from load_cache_entry [OF f rt] win float_range_py_int [OF now] show ?thesis by simp
qed

theorem cache_round_trip_witness:
  "store_cache example_env (world_at [] no_files (1 / 2)) example_query_id example_data
     = (Inr True, world_at [] example_files (1 / 2)) \<and>
   loads example_env (dumps example_env
      (VDict [(''timestamp'', VInt (py_int (clock (world_at [] no_files (1 / 2))))), (''data'', example_data)]))
     = Some (VDict [(''timestamp'', VInt (py_int (clock (world_at [] no_files (1 / 2))))), (''data'', example_data)]) \<and>
   1 - real_of_int (py_int (clock (world_at [] no_files (1 / 2)))) < 6 * 86400 \<and>
   float_range (clock (world_at [] no_files (1 / 2))) \<and>
   load_cache example_env (world_at [] example_files 1) example_query_id
     = (example_data, world_at [] example_files 1)"
proof -
  have c: "py_int (clock (world_at [] no_files (1 / 2))) = 0"
    by (simp add: world_at_def py_int_def)
  have c': "py_int (1 / 2) = 0" by (simp add: py_int_def)
  have st: "store_cache example_env (world_at [] no_files (1 / 2)) example_query_id example_data
     = (Inr True, world_at [] example_files (1 / 2))"
    by (simp add: store_cache_def Let_def example_path_join example_env_def world_at_def
        example_files_def c')
  have rt: "loads example_env (dumps example_env
      (VDict [(''timestamp'', VInt (py_int (clock (world_at [] no_files (1 / 2))))), (''data'', example_data)]))
     = Some (VDict [(''timestamp'', VInt (py_int (clock (world_at [] no_files (1 / 2))))), (''data'', example_data)])"
    by (simp add: c example_env_def)
  have win: "1 - real_of_int (py_int (clock (world_at [] no_files (1 / 2)))) < 6 * 86400"
    by (simp add: c)
  have now: "float_range (clock (world_at [] no_files (1 / 2)))"
    by (simp add: world_at_def float_range_def)
  have "(world_at [] example_files (1 / 2))\<lparr>clock := 1\<rparr> = world_at [] example_files 1"
    by (simp add: world_at_def)
  with cache_round_trip [OF st rt win now] st rt win now show ?thesis by simp
qed

subsection \<open>Failure isolation\<close>

text \<open>
  C8. Let the pool have at least one worker, let the iteration order of \<open>done\<close> be any
  permutation of the futures and let every exception raised by a unit be a subclass of
  \<open>Exception\<close>, as \<open>InvalidResponseError\<close>, \<open>CaptchaError\<close> and all exceptions raised by the
  sources are. Then no exception of a unit reaches the caller of \<open>execute_search\<close>. The
  call returns once every unit that was running at the timeout has come to an end, and
  what it has appended to \<open>results\<close> is, as a multiset, exactly the truthy values returned
  by the units that completed before the timeout. Only a unit that never ends keeps the
  call from returning.
\<close>

theorem execute_search_isolates_failures:
  fixes env :: "('src, 'meth) env"
  assumes pool: "0 < max_threads"
    and perm: "mset (done_order env (length (List.product sources search_methods)))
                 = mset [0..<length (List.product sources search_methods)]"
    and exc: "\<forall>i e. i < length (List.product sources search_methods) \<longrightarrow>
                future_fate env (List.product sources search_methods) max_threads timeout i = Raised e \<longrightarrow>
                is_Exception e"
  shows "\<exists>new.
           mset new = mset (concat (map
             (\<lambda>i. successful_value
                    (future_fate env (List.product sources search_methods) max_threads timeout i))
             [0..<length (List.product sources search_methods)])) \<and>
           execute_search env sources search_methods results max_threads timeout =
             (if list_ex
                   (\<lambda>i. future_fate env (List.product sources search_methods) max_threads timeout i
                        = Running False)
                   [0..<length (List.product sources search_methods)]
              then None
              else Some (Inr (results @ new)))"
proof -
  define n where "n = length (List.product sources search_methods)"
  define fate where "fate = future_fate env (List.product sources search_methods) max_threads timeout"
  let ?done = "filter (\<lambda>i. i < n \<and> is_done (fate i)) (done_order env n)"
  let ?not_done = "filter (\<lambda>i. \<not> is_done (fate i)) [0..<n]"
  let ?g = "\<lambda>i. successful_value (fate i)"
  from perm have p: "mset (done_order env n) = mset [0..<n]" by (simp add: n_def)
  from exc have e: "\<And>i e. i < n \<Longrightarrow> fate i = Raised e \<Longrightarrow> is_Exception e"
    by (simp add: n_def fate_def)
  from p have s: "set (done_order env n) = {0..<n}"
    by (metis mset_eq_setD set_upt)
  have c: "collect_done fate ?done results = Inr (results @ concat (map ?g ?done))"
    using e by (intro collect_done_values) auto
  have g: "?g i = []" if "\<not> is_done (fate i)" for i
    using that by (cases "fate i") (simp_all add: successful_value_def)
  have "concat (map ?g ?done) = concat (map ?g (done_order env n))"
    using s g by (intro concat_map_filter_irrelevant) auto
  moreover have "mset (concat (map ?g (done_order env n))) = mset (concat (map ?g [0..<n]))"
    using p by (rule mset_concat_map_perm)
  ultimately have m: "mset (concat (map ?g ?done)) = mset (concat (map ?g [0..<n]))" by simp
  have "execute_search env sources search_methods results max_threads timeout =
      (case collect_done fate ?done results of
         Inr results \<Rightarrow>
           if list_ex (\<lambda>i. blocks_shutdown True (fate i)) ?not_done then None
           else Some (Inr results)
       | Inl e \<Rightarrow>
           if list_ex (\<lambda>i. blocks_shutdown False (fate i)) ?not_done then None
           else Some (Inl e))"
    unfolding n_def fate_def execute_search_def Let_def using pool by simp
  also have "\<dots> = (if list_ex (\<lambda>i. fate i = Running False) [0..<n] then None
       else Some (Inr (results @ concat (map ?g ?done))))"
    by (simp only: c sum.case blocks_shutdown_not_done)
  finally show ?thesis using m unfolding n_def fate_def by blast
qed

theorem execute_search_isolates_failures_witness:
  "(0 :: int) < 5 \<and>
   mset (done_order example_env (length (List.product [''fbi'', ''interpol'', ''europol'', ''nca''] [()])))
     = mset [0..<length (List.product [''fbi'', ''interpol'', ''europol'', ''nca''] [()])] \<and>
   future_fate example_env (List.product [''fbi'', ''interpol'', ''europol'', ''nca''] [()]) 5 30 1
     = Raised CaptchaError \<and>
   future_fate example_env (List.product [''fbi'', ''interpol'', ''europol'', ''nca''] [()]) 5 30 2
     = Running True \<and>
   future_fate example_env (List.product [''fbi'', ''interpol'', ''europol'', ''nca''] [()]) 5 30 3
     = Returned VNone \<and>
   execute_search example_env [''fbi'', ''interpol'', ''europol'', ''nca''] [()] [] 5 30
     = Some (Inr [example_found])"
proof -
  let ?srcs = "[''fbi'', ''interpol'', ''europol'', ''nca'']"
  let ?tasks = "List.product ?srcs [()]"
  have pool: "(0 :: int) < 5" by simp
  have len: "length ?tasks = 4" by simp
  have perm: "mset (done_order example_env (length ?tasks)) = mset [0..<length ?tasks]"
    by (simp add: example_env_def)
  have exc: "\<forall>i e. i < length ?tasks \<longrightarrow>
      future_fate example_env ?tasks 5 30 i = Raised e \<longrightarrow> is_Exception e"
    by (auto simp: future_fate_def example_env_def split: prod.splits if_splits)
  have f0: "future_fate example_env ?tasks 5 30 0 = Returned example_found"
    and f1: "future_fate example_env ?tasks 5 30 1 = Raised CaptchaError"
    and f2: "future_fate example_env ?tasks 5 30 2 = Running True"
    and f3: "future_fate example_env ?tasks 5 30 3 = Returned VNone"
    by (simp_all add: future_fate_def example_env_def)
  have up: "[0..<4] = [0, 1, 2, 3]" by (simp add: upt_rec)
  have ends: "\<not> list_ex (\<lambda>i. future_fate example_env ?tasks 5 30 i = Running False)
                 [0..<length ?tasks]"
    unfolding len up by (simp add: future_fate_def example_env_def)
  from execute_search_isolates_failures [OF pool perm exc, of "[]"] ends obtain new where
    ex: "execute_search example_env ?srcs [()] [] 5 30 = Some (Inr ([] @ new))" and
    ms: "mset new = mset (concat (map (\<lambda>i. successful_value (future_fate example_env ?tasks 5 30 i))
             [0..<length ?tasks]))"
    by auto
  have vals: "concat (map (\<lambda>i. successful_value (future_fate example_env ?tasks 5 30 i))
             [0..<length ?tasks]) = [example_found]"
    unfolding len up
    by (simp add: successful_value_def future_fate_def example_env_def example_found_def)
  from ms have "mset new = mset [example_found]" unfolding vals .
  then have "mset new = {#example_found#}" by simp
  then have "new = [example_found]" by (simp add: mset_single_iff_right)
  with ex perm f1 f2 f3 show ?thesis by simp
qed

subsection \<open>An empty cached result\<close>

text \<open>
  C10. Let the query not be running when \<open>perform_search\<close> is called. If its cache entry
  holds the empty list, the search is executed again and, unless \<open>store_cache\<close> raises,
  the call returns the executed results with the status \<open>fresh\<close>. And whenever a response
  has the status \<open>cached\<close>, its data is truthy, so it is not the empty list.
\<close>

theorem empty_cache_entry_is_not_served:
  fixes env :: "('src, 'meth) env"
  assumes nr: "\<not> is_running w (gen_cache_filename env (cache_type @ escape env query))"
  shows "(files w (path_join CACHE_DIR (gen_cache_filename env (cache_type @ escape env query))) = Some text \<and>
          loads env text = Some (VDict [(''timestamp'', VInt ts), (''data'', VList [])]) \<and>
          execute_search env sources search_methods [] (MAX_THREADS cfg) (TIMEOUT cfg) = Some (Inr rs) \<and>
          makedirs_error env = None \<and>
          (\<forall>e. open_error env (path_join CACHE_DIR (gen_cache_filename env (cache_type @ escape env query))) = Some e
                \<longrightarrow> is_IOError e) \<and>
          (\<forall>t e. write_error env (path_join CACHE_DIR (gen_cache_filename env (cache_type @ escape env query))) t = Some e
                \<longrightarrow> is_IOError e)
          \<longrightarrow> (\<exists>resp w'. perform_search cfg env w query cache_type sources search_methods = Some (Inr resp, w') \<and>
                  body resp = gen_results ''fresh'' (VList rs))) \<and>
         (\<forall>resp w'. perform_search cfg env w query cache_type sources search_methods = Some (Inr resp, w') \<and>
              getitem (body resp) ''status'' = Some (VStr ''cached'')
              \<longrightarrow> (\<exists>cache. getitem (body resp) ''data'' = Some cache \<and> truthy cache \<and> cache \<noteq> VList []))"
proof (intro conjI impI allI)
  let ?q = "gen_cache_filename env (cache_type @ escape env query)"
  assume h: "files w (path_join CACHE_DIR ?q) = Some text \<and>
          loads env text = Some (VDict [(''timestamp'', VInt ts), (''data'', VList [])]) \<and>
          execute_search env sources search_methods [] (MAX_THREADS cfg) (TIMEOUT cfg) = Some (Inr rs) \<and>
          makedirs_error env = None \<and>
          (\<forall>e. open_error env (path_join CACHE_DIR ?q) = Some e \<longrightarrow> is_IOError e) \<and>
          (\<forall>t e. write_error env (path_join CACHE_DIR ?q) t = Some e \<longrightarrow> is_IOError e)"
  then have f: "files (add_running w ?q) (path_join CACHE_DIR ?q) = Some text"
    by (simp add: add_running_def)
  from h have miss: "\<not> truthy (fst (load_cache env (add_running w ?q) ?q))"
    by (intro load_cache_empty_falsy [OF f]) simp
  from h have st: "\<exists>b. fst (store_cache env w0 ?q (VList rs)) = Inr b" for w0
    by (intro store_cache_no_raise) simp_all
  from h have ex: "execute_search env sources search_methods [] (MAX_THREADS cfg) (TIMEOUT cfg) = Some (Inr rs)"
    by simp
  show "\<exists>resp w'. perform_search cfg env w query cache_type sources search_methods = Some (Inr resp, w') \<and>
                  body resp = gen_results ''fresh'' (VList rs)"
    using nr miss ex st by (rule perform_search_miss)
next
  fix resp w'
  assume "perform_search cfg env w query cache_type sources search_methods = Some (Inr resp, w') \<and>
              getitem (body resp) ''status'' = Some (VStr ''cached'')"
  then show "\<exists>cache. getitem (body resp) ''data'' = Some cache \<and> truthy cache \<and> cache \<noteq> VList []"
    using perform_search_cached_truthy by blast
qed

theorem empty_cache_entry_is_not_served_witness:
  "\<not> is_running (world_at [] empty_entry_files 1700000100)
        (gen_cache_filename example_env (''host'' @ escape example_env ''example.com'')) \<and>
   files (world_at [] empty_entry_files 1700000100)
     (path_join CACHE_DIR (gen_cache_filename example_env (''host'' @ escape example_env ''example.com'')))
     = Some empty_entry_text \<and>
   loads example_env empty_entry_text = Some (VDict [(''timestamp'', VInt 1700000000), (''data'', VList [])]) \<and>
   perform_search example_config example_env (world_at [] empty_entry_files 1700000100)
       ''example.com'' ''host'' [] []
     = Some (Inr (Jsonified (VDict [(''status'', VStr ''fresh''), (''data'', VList [])])),
             world_at [] fresh_entry_files 1700000100)"
proof -
  let ?w = "world_at [] empty_entry_files 1700000100"
  let ?q = "gen_cache_filename example_env (''host'' @ escape example_env ''example.com'')"
  have nr: "\<not> is_running ?w ?q" by (simp add: is_running_def world_at_def)
  have q: "?q = example_query_id" by (rule example_id)
  have f: "files ?w (path_join CACHE_DIR ?q) = Some empty_entry_text"
    unfolding q by (simp add: example_path_join world_at_def empty_entry_files_def)
  have l: "loads example_env empty_entry_text = Some (VDict [(''timestamp'', VInt 1700000000), (''data'', VList [])])"
    by (simp add: example_env_def example_text_def empty_entry_text_def)
  have ex: "execute_search example_env [] [] [] (MAX_THREADS example_config) (TIMEOUT example_config)
      = Some (Inr [])"
    by (simp add: execute_search_def example_env_def example_config_def)
  have env: "makedirs_error example_env = None"
    "\<forall>e. open_error example_env (path_join CACHE_DIR ?q) = Some e \<longrightarrow> is_IOError e"
    "\<forall>t e. write_error example_env (path_join CACHE_DIR ?q) t = Some e \<longrightarrow> is_IOError e"
    unfolding q by (simp_all add: example_env_def)
  have run: "perform_search example_config example_env ?w ''example.com'' ''host'' [] []
     = Some (Inr (Jsonified (VDict [(''status'', VStr ''fresh''), (''data'', VList [])])),
             world_at [] fresh_entry_files 1700000100)"
    by (subst perform_search_not_running [OF example_id nr [unfolded q]])
      (simp add: example_config_def add_running_def load_cache_def store_cache_def
        example_path_join world_at_def empty_entry_files_def fresh_entry_files_def
        execute_search_def remove_running_def gen_results_def py_int_def CACHE_MAX_DAYS_def
        example_env_def float_convertible_def example_text_def empty_entry_text_def
        fresh_entry_text_def)
  from empty_cache_entry_is_not_served [OF nr, of empty_entry_text 1700000000 "[]" "[]" example_config "[]"] f l ex env run nr
  show ?thesis by simp
qed

subsection \<open>The entry in the registry of running searches\<close>

text \<open>
  C2 holds on the two paths that return, by \<open>perform_search_return_releases\<close>, but not
  when an exception leaves \<open>perform_search\<close>: there is no \<open>try\<close>/\<open>finally\<close> around the
  work. In the host search for \<open>example.com\<close> with a cache directory that cannot be
  created, \<open>os.makedirs\<close> raises \<open>OSError\<close> inside \<open>store_cache\<close>, the exception leaves
  \<open>perform_search\<close>, and the query id stays in \<open>CURRENTLY_RUNNING\<close>.
\<close>

theorem perform_search_leaks_entry_on_exception:
  "perform_search example_config (example_env\<lparr>makedirs_error := Some OSError\<rparr>)
       (world_at [] no_files 1700000100) ''example.com'' ''host'' [] []
     = Some (Inl OSError, world_at [example_query_id] no_files 1700000100) \<and>
   is_running (world_at [example_query_id] no_files 1700000100) example_query_id"
proof -
  have q: "gen_cache_filename (example_env\<lparr>makedirs_error := Some OSError\<rparr>)
             (''host'' @ escape (example_env\<lparr>makedirs_error := Some OSError\<rparr>) ''example.com'')
           = example_query_id"
    by (simp add: gen_cache_filename_def example_env_def)
  have nr: "\<not> is_running (world_at [] no_files 1700000100) example_query_id"
    by (simp add: is_running_def world_at_def)
  show ?thesis
    by (subst perform_search_not_running [OF q nr])
      (simp add: example_config_def add_running_def load_cache_def store_cache_def
        example_path_join world_at_def no_files_def is_running_def
        execute_search_def remove_running_def example_env_def)
qed

subsection \<open>What a merge does to its inputs\<close>

text \<open>
  C3, as stated, fails. Merging the two partial results of \<open>example_heap\<close>, which share the
  source key X, returns normally, and afterwards the first input reads
  \<open>{"risk": "Low", "notices": {"X": {"id": "1", "charges": ["A", "B", "C"]}}}\<close>: its
  notices dictionary was stored in the result without a copy and the second input was
  merged into it.
\<close>

theorem merge_responses_changes_nested_input:
  "hmerge_responses 1000 example_heap [HRef 0, HRef 3] = (None, example_heap_merged, 6) \<and>
   value_of 3 example_heap (HRef 0) =
     VDict [(''risk'', VStr ''Low''), (''notices'', VDict [(''X'',
       VDict [(''id'', VStr ''1''), (''charges'', VList [VStr ''A'', VStr ''B''])])])] \<and>
   value_of 3 example_heap_merged (HRef 0) =
     VDict [(''risk'', VStr ''Low''), (''notices'', VDict [(''X'',
       VDict [(''id'', VStr ''1''), (''charges'', VList [VStr ''A'', VStr ''B'', VStr ''C''])])])] \<and>
   value_of 3 example_heap_merged (HRef 0) \<noteq> value_of 3 example_heap (HRef 0)"
  by code_simp

text \<open>
  C3, amended. \<open>merge_responses\<close> allocates one dictionary, the result, and changes no
  dictionary other than the result and the dictionaries nested in the inputs: for every
  set \<open>S\<close> of addresses that contains what is stored in the inputs and what is stored in
  its own members, every dictionary outside \<open>S\<close> is after the call what it was before,
  whether the call returns or raises. So the top-level dictionary of an input is left
  unchanged unless it is itself nested in an input.
\<close>

theorem merge_responses_changes_only_nested_dictionaries:
  assumes c: "closed h S"
    and r: "\<forall>a. HRef a \<in> set responses \<longrightarrow> children h a \<subseteq> S"
    and run: "hmerge_responses depth h responses = (e, h', merged_dict)"
  shows "merged_dict = length h \<and> length h' = Suc (length h) \<and>
         (\<forall>a. a \<notin> S \<and> a \<noteq> merged_dict \<longrightarrow> hget h' a = hget h a)"
proof -
  from run have md: "merged_dict = length h"
    and all: "hmerge_all depth (h @ [[]]) (length h) responses = (e, h')"
    by (auto simp: hmerge_responses_def split: prod.splits)
  have "frame S (length h) (h @ [[]]) h'"
  proof (rule hmerge_all_frame [OF _ _ _ all])
    show "closed (h @ [[]]) S" using c by (simp add: closed_append_empty)
    show "children (h @ [[]]) (length h) \<subseteq> S"
      by (simp add: children_append_empty children_def hget_def)
    fix a assume "HRef a \<in> set responses"
    with r show "children (h @ [[]]) a \<subseteq> S" by (simp add: children_append_empty)
  qed
  then show ?thesis by (simp add: frame_def md hget_append_empty)
qed

theorem merge_responses_changes_only_nested_dictionaries_witness:
  "children example_heap 0 \<union> children example_heap 3 = {1, 4} \<and>
   children example_heap 1 \<union> children example_heap 4 = {2, 5} \<and>
   children example_heap 2 \<union> children example_heap 5 = {} \<and>
   hmerge_responses 1000 example_heap [HRef 0, HRef 3] = (None, example_heap_merged, 6) \<and>
   hget example_heap_merged 0 = hget example_heap 0 \<and>
   hget example_heap_merged 3 = hget example_heap 3"
proof -
  have c: "closed example_heap {1, 2, 4, 5}"
    by (auto simp: closed_def children_def hget_def example_heap_def)
  have r: "\<forall>a. HRef a \<in> set [HRef 0, HRef 3] \<longrightarrow> children example_heap a \<subseteq> {1, 2, 4, 5}"
    by (auto simp: children_def hget_def example_heap_def)
  have run: "hmerge_responses 1000 example_heap [HRef 0, HRef 3] = (None, example_heap_merged, 6)"
    by code_simp
  have k: "children example_heap 0 \<union> children example_heap 3 = {1, 4}"
    "children example_heap 1 \<union> children example_heap 4 = {2, 5}"
    "children example_heap 2 \<union> children example_heap 5 = {}"
    by (auto simp: children_def hget_def example_heap_def)
  from merge_responses_changes_only_nested_dictionaries [OF c r run] k run show ?thesis by simp
qed

end
